theory Spec2Isabelle
  imports Complex_Main "HOL-Library.Word"
begin

section \<open>The bucketed hashmap of ts_hashmap.c, as one thread runs it\<close>

text \<open>
  The embedding follows \<^verbatim>\<open>ts_hashmap.c\<close> function by function. Every operation takes
  the lock of one bucket, releases it, and then takes and releases the counter lock; with no
  other thread running the locks change nothing, so the state below is the struct
  \<^verbatim>\<open>ts_hashmap_t\<close> without its mutexes.

  A C \<^verbatim>\<open>int\<close> is a 32-bit word. Keys are compared with \<^verbatim>\<open>==\<close> and routed by
  \<^verbatim>\<open>(unsigned int)key % (unsigned int)capacity\<close>, which is \<open>unat key mod unat capacity\<close>.
  The increments \<^verbatim>\<open>numOps++\<close>, \<^verbatim>\<open>size++\<close>, ... are word additions: they wrap
  as the compiled code does, where the C standard leaves signed overflow undefined. The
  statements about counters therefore come in two forms: an equation between words, and the
  equation between the signed values under a bound that excludes the overflow.
\<close>

type_synonym cint = "32 word"

definition INT_MAX :: cint where
  "INT_MAX = 0x7FFFFFFF"

text \<open>
  \<^verbatim>\<open>ts_entry_t\<close>: the \<^verbatim>\<open>next\<close> pointer of an entry is the tail of the list that
  holds it. A chain is owned by one bucket and nothing else points into it.
\<close>

record ts_entry_t =
  key :: cint
  val :: cint

type_synonym chain = "ts_entry_t list"

record ts_hashmap_t =
  table :: "chain list"
  numOps :: cint
  capacity :: cint
  size_c :: cint
  gets :: cint
  put_adds :: cint
  put_reps :: cint
  del_succ :: cint
  del_fail :: cint

subsection \<open>initmap\<close>

text \<open>
  The allocations of \<^verbatim>\<open>initmap\<close> succeed or fail as the environment decides:
  \<open>map_ok\<close>, \<open>table_ok\<close> and \<open>locks_ok\<close> say whether \<^verbatim>\<open>malloc\<close>, \<^verbatim>\<open>calloc\<close> and the
  second \<^verbatim>\<open>malloc\<close> find the memory they are asked for.

  What \<^verbatim>\<open>calloc(capacity, sizeof(ts_entry_t *))\<close> is asked for depends on the capacity:
  the \<^verbatim>\<open>int\<close> is converted to \<^verbatim>\<open>size_t\<close>, so a negative capacity is a count of at
  least \<open>2 ^ 31\<close> pointers with a 32-bit \<^verbatim>\<open>size_t\<close> and of at least \<open>2 ^ 64 - 2 ^ 31\<close>
  with a 64-bit one. The size of that array does not fit \<^verbatim>\<open>size_t\<close>, no such object can
  be allocated, and \<^verbatim>\<open>calloc\<close> returns \<^verbatim>\<open>NULL\<close> whatever memory there is. For a
  capacity that is not negative the environment decides; that includes 0, for which
  \<^verbatim>\<open>calloc\<close> may return a block.
\<close>

definition calloc_returns :: "cint \<Rightarrow> bool \<Rightarrow> bool" where
  "calloc_returns cap table_ok = (0 \<le> sint cap \<and> table_ok)"

text \<open>
  The second component of the result of \<^verbatim>\<open>initmap\<close> is the list of blocks that are
  allocated and not freed when it returns; \<^verbatim>\<open>free\<close> takes a block off that list.
  \<^verbatim>\<open>calloc\<close> zeroes the table: every bucket is the empty chain, and there are
  \<open>unat cap\<close> of them, the capacity being not negative where the table exists. The capacity
  is stored as it comes; no statement of \<^verbatim>\<open>initmap\<close> compares it with anything. The
  mutexes that \<^verbatim>\<open>initmap\<close> initialises are not part of the state.
\<close>

datatype block = MapBlock | TableBlock | LocksBlock

definition initmap :: "cint \<Rightarrow> bool \<times> bool \<times> bool \<Rightarrow> ts_hashmap_t option \<times> block list" where
  "initmap cap oks =
     (case oks of (map_ok, table_ok, locks_ok) \<Rightarrow>
        if \<not> map_ok then (None, [])
        else let live = [MapBlock] in
          if \<not> calloc_returns cap table_ok then (None, remove1 MapBlock live)
          else let live = TableBlock # live in
            if \<not> locks_ok then (None, remove1 MapBlock (remove1 TableBlock live))
            else (Some \<lparr>table = replicate (unat cap) [], numOps = 0, capacity = cap,
                         size_c = 0, gets = 0, put_adds = 0, put_reps = 0,
                         del_succ = 0, del_fail = 0\<rparr>,
                  LocksBlock # live))"

subsection \<open>Routing\<close>

text \<open>
  The first two lines of \<^verbatim>\<open>get\<close>, \<^verbatim>\<open>put\<close> and \<^verbatim>\<open>del\<close>. The remainder by a zero
  capacity and a read behind the end of the table are undefined in C: the model returns
  \<open>None\<close> there, and so does the operation.
\<close>

definition index_of :: "ts_hashmap_t \<Rightarrow> cint \<Rightarrow> nat option" where
  "index_of m k =
     (if capacity m = 0 then None
      else let index = unat k mod unat (capacity m)
           in if index < length (table m) then Some index else None)"

subsection \<open>get\<close>

fun get_loop :: "chain \<Rightarrow> cint \<Rightarrow> cint" where
  "get_loop [] k = INT_MAX"
| "get_loop (entry # rest) k = (if key entry = k then val entry else get_loop rest k)"

definition get :: "ts_hashmap_t \<Rightarrow> cint \<Rightarrow> (cint \<times> ts_hashmap_t) option" where
  "get m k =
     (case index_of m k of
        None \<Rightarrow> None
      | Some index \<Rightarrow>
          Some (get_loop (table m ! index) k,
                m\<lparr>numOps := numOps m + 1, gets := gets m + 1\<rparr>))"

subsection \<open>put\<close>

text \<open>
  The scan of \<^verbatim>\<open>put\<close>: \<open>Some (old_val, chain')\<close> when the key is found and its value
  overwritten in place, \<open>None\<close> when the scan reaches the end (\<^verbatim>\<open>found == 0\<close>).
\<close>

fun put_loop :: "chain \<Rightarrow> cint \<Rightarrow> cint \<Rightarrow> (cint \<times> chain) option" where
  "put_loop [] k v = None"
| "put_loop (entry # rest) k v =
     (if key entry = k then Some (val entry, entry\<lparr>val := v\<rparr> # rest)
      else (case put_loop rest k v of
              None \<Rightarrow> None
            | Some (old_val, rest') \<Rightarrow> Some (old_val, entry # rest')))"

text \<open>
  \<open>alloc_ok\<close> says whether the \<^verbatim>\<open>malloc\<close> of the new entry returns a block; it is only
  consulted when the key was not found. The new entry goes behind the last one.
\<close>

definition put :: "ts_hashmap_t \<Rightarrow> cint \<Rightarrow> cint \<Rightarrow> bool \<Rightarrow> (cint \<times> ts_hashmap_t) option" where
  "put m k v alloc_ok =
     (case index_of m k of
        None \<Rightarrow> None
      | Some index \<Rightarrow>
          (case put_loop (table m ! index) k v of
             Some (old_val, ch) \<Rightarrow>
               Some (old_val,
                     m\<lparr>table := (table m)[index := ch],
                       numOps := numOps m + 1, put_reps := put_reps m + 1\<rparr>)
           | None \<Rightarrow>
               if \<not> alloc_ok then Some (INT_MAX, m\<lparr>numOps := numOps m + 1\<rparr>)
               else Some (INT_MAX,
                     m\<lparr>table := (table m)[index := table m ! index @ [\<lparr>key = k, val = v\<rparr>]],
                       size_c := size_c m + 1,
                       numOps := numOps m + 1, put_adds := put_adds m + 1\<rparr>)))"

subsection \<open>del\<close>

fun del_loop :: "chain \<Rightarrow> cint \<Rightarrow> (cint \<times> chain) option" where
  "del_loop [] k = None"
| "del_loop (entry # rest) k =
     (if key entry = k then Some (val entry, rest)
      else (case del_loop rest k of
              None \<Rightarrow> None
            | Some (v, rest') \<Rightarrow> Some (v, entry # rest')))"

definition del :: "ts_hashmap_t \<Rightarrow> cint \<Rightarrow> (cint \<times> ts_hashmap_t) option" where
  "del m k =
     (case index_of m k of
        None \<Rightarrow> None
      | Some index \<Rightarrow>
          (case del_loop (table m ! index) k of
             Some (v, ch) \<Rightarrow>
               Some (v,
                     m\<lparr>table := (table m)[index := ch], size_c := size_c m - 1,
                       numOps := numOps m + 1, del_succ := del_succ m + 1\<rparr>)
           | None \<Rightarrow>
               Some (INT_MAX, m\<lparr>numOps := numOps m + 1, del_fail := del_fail m + 1\<rparr>)))"

subsection \<open>The report of freeMap\<close>

text \<open>
  \<^verbatim>\<open>freeMap\<close> prints, for each outcome counter, the count and
  \<^verbatim>\<open>(count * 100.0) / map->numOps\<close>. The product and the quotient are doubles. A count
  times 100 is exact in a double; the quotient by a non-zero total is the double nearest to
  the rational \<open>Pct\<close> holds; the quotient by zero is not a number for a zero count and an
  infinity otherwise (IEC 60559 division). No test of \<^verbatim>\<open>numOps\<close> precedes the division.
  The report is the list of the five lines with a percentage: label, count, percentage. The
  two lines without one and the release of the memory that follows are left out.
\<close>

datatype pct = Pct rat | NaN | PosInf | NegInf

definition percent :: "cint \<Rightarrow> cint \<Rightarrow> pct" where
  "percent count ops =
     (if sint ops = 0
      then (if sint count = 0 then NaN else if 0 < sint count then PosInf else NegInf)
      else Pct (of_int (sint count * 100) / of_int (sint ops)))"

definition freeMap_report :: "ts_hashmap_t \<Rightarrow> (string \<times> cint \<times> pct) list" where
  "freeMap_report m =
     [(''gets'', gets m, percent (gets m) (numOps m)),
      (''put adds'', put_adds m, percent (put_adds m) (numOps m)),
      (''put reps'', put_reps m, percent (put_reps m) (numOps m)),
      (''del succ'', del_succ m, percent (del_succ m) (numOps m)),
      (''del fail'', del_fail m, percent (del_fail m) (numOps m))]"

subsection \<open>Sequences of operations\<close>

text \<open>
  A caller's sequence of calls on one map. A \<open>Put\<close> carries the outcome of the allocation
  it may need.
\<close>

datatype op = Get cint | Put cint cint bool | Del cint

fun step :: "ts_hashmap_t \<Rightarrow> op \<Rightarrow> (cint \<times> ts_hashmap_t) option" where
  "step m (Get k) = get m k"
| "step m (Put k v alloc_ok) = put m k v alloc_ok"
| "step m (Del k) = del m k"

fun run :: "ts_hashmap_t \<Rightarrow> op list \<Rightarrow> ts_hashmap_t option" where
  "run m [] = Some m"
| "run m (x # xs) = (case step m x of None \<Rightarrow> None | Some (r, m') \<Rightarrow> run m' xs)"

text \<open>The operations that write the binding of key \<open>k\<close>: a put or a delete on \<open>k\<close>.\<close>

fun mutates :: "cint \<Rightarrow> op \<Rightarrow> bool" where
  "mutates k (Get k') = False"
| "mutates k (Put k' v alloc_ok) = (k' = k)"
| "mutates k (Del k') = (k' = k)"

subsection \<open>What the claims speak about\<close>

text \<open>
  A map an operation can run on: the capacity is not zero and the table has one chain for
  each index below it.
\<close>

definition valid_map :: "ts_hashmap_t \<Rightarrow> bool" where
  "valid_map m = (capacity m \<noteq> 0 \<and> length (table m) = unat (capacity m))"

text \<open>The keys of a chain, and the value the first entry with key \<open>k\<close> holds.\<close>

definition keys_of :: "chain \<Rightarrow> cint set" where
  "keys_of ch = set (map key ch)"

fun binding :: "chain \<Rightarrow> cint \<Rightarrow> cint option" where
  "binding [] k = None"
| "binding (entry # rest) k = (if key entry = k then Some (val entry) else binding rest k)"

text \<open>The chain that an operation on key \<open>k\<close> scans.\<close>

definition bucket :: "ts_hashmap_t \<Rightarrow> cint \<Rightarrow> chain" where
  "bucket m k = table m ! (unat k mod unat (capacity m))"

text \<open>
  The invariant of a bucket chain: no key twice, and every key routes to the index of the
  bucket.
\<close>

definition chain_inv :: "cint \<Rightarrow> nat \<Rightarrow> chain \<Rightarrow> bool" where
  "chain_inv cap i ch =
     (distinct (map key ch) \<and> list_all (\<lambda>e. unat (key e) mod unat cap = i) ch)"

definition chains_inv :: "ts_hashmap_t \<Rightarrow> bool" where
  "chains_inv m =
     list_all (\<lambda>(i, ch). chain_inv (capacity m) i ch) (enumerate 0 (table m))"

text \<open>The sum of the chain lengths over all buckets.\<close>

definition entries :: "ts_hashmap_t \<Rightarrow> nat" where
  "entries m = sum_list (map length (table m))"

text \<open>
  The outcome of one operation in state \<open>m\<close>, read off the branch the code takes: a put
  that links a new entry, a put whose allocation fails, a delete that unlinks an entry.
\<close>

fun inserts :: "ts_hashmap_t \<Rightarrow> op \<Rightarrow> bool" where
  "inserts m (Put k v alloc_ok) = (put_loop (bucket m k) k v = None \<and> alloc_ok)"
| "inserts m x = False"

fun aborts :: "ts_hashmap_t \<Rightarrow> op \<Rightarrow> bool" where
  "aborts m (Put k v alloc_ok) = (put_loop (bucket m k) k v = None \<and> \<not> alloc_ok)"
| "aborts m x = False"

fun deletes :: "ts_hashmap_t \<Rightarrow> op \<Rightarrow> bool" where
  "deletes m (Del k) = (del_loop (bucket m k) k \<noteq> None)"
| "deletes m x = False"

text \<open>How many operations of a run have the outcome \<open>P\<close>.\<close>

fun tally :: "(ts_hashmap_t \<Rightarrow> op \<Rightarrow> bool) \<Rightarrow> ts_hashmap_t \<Rightarrow> op list \<Rightarrow> nat" where
  "tally P m [] = 0"
| "tally P m (x # xs) =
     (case step m x of
        None \<Rightarrow> 0
      | Some (r, m') \<Rightarrow> (if P m x then 1 else 0) + tally P m' xs)"

text \<open>The sum of the five outcome counters, read as unsigned numbers.\<close>

definition outcomes :: "ts_hashmap_t \<Rightarrow> nat" where
  "outcomes m = unat (gets m) + unat (put_adds m) + unat (put_reps m) + unat (del_succ m) +
     unat (del_fail m)"

subsection \<open>Two states of a map of capacity 4\<close>

definition fresh4 :: ts_hashmap_t where
  "fresh4 = \<lparr>table = [[], [], [], []], numOps = 0, capacity = 4, size_c = 0, gets = 0,
              put_adds = 0, put_reps = 0, del_succ = 0, del_fail = 0\<rparr>"

definition two_keys :: ts_hashmap_t where
  "two_keys = \<lparr>table = [[], [\<lparr>key = 1, val = 10\<rparr>, \<lparr>key = 5, val = 20\<rparr>], [], []],
                numOps = 2, capacity = 4, size_c = 2, gets = 0,
                put_adds = 2, put_reps = 0, del_succ = 0, del_fail = 0\<rparr>"

section \<open>Scanning a chain\<close>

lemma get_loop_binding: "get_loop ch k = (case binding ch k of None \<Rightarrow> INT_MAX | Some v \<Rightarrow> v)"
  by (induction ch) auto

lemma binding_None: "(binding ch k = None) = (k \<notin> keys_of ch)"
  by (induction ch) (auto simp: keys_of_def)

lemma put_loop_None: "(put_loop ch k v = None) = (k \<notin> keys_of ch)"
  by (induction ch) (auto simp: keys_of_def split: option.splits)

lemma put_loop_old: "put_loop ch k v = Some (old, ch') \<Longrightarrow> binding ch k = Some old"
  by (induction ch arbitrary: ch') (auto split: option.splits if_splits)

lemma put_loop_keys: "put_loop ch k v = Some (old, ch') \<Longrightarrow> map key ch' = map key ch"
  by (induction ch arbitrary: ch') (auto split: option.splits if_splits)

lemma put_loop_binding:
  "put_loop ch k v = Some (old, ch') \<Longrightarrow>
     binding ch' k' = (if k' = k then Some v else binding ch k')"
proof (induction ch arbitrary: ch')
  case Nil
  then show ?case by simp
next
  case (Cons e ch)
  show ?case
  proof (cases "key e = k")
    case True
    with Cons.prems show ?thesis by auto
  next
    case False
    with Cons.prems obtain r where r: "put_loop ch k v = Some (old, r)" and ch': "ch' = e # r"
      by (auto split: option.splits)
    from Cons.IH [OF r] False ch' show ?thesis by (cases "k' = k") simp_all
  qed
qed

lemma binding_append:
  "binding (ch @ [\<lparr>key = k, val = v\<rparr>]) k' =
     (case binding ch k' of Some w \<Rightarrow> Some w | None \<Rightarrow> if k' = k then Some v else None)"
  by (induction ch) auto

lemma del_loop_None: "(del_loop ch k = None) = (k \<notin> keys_of ch)"
  by (induction ch) (auto simp: keys_of_def split: option.splits)

lemma del_loop_Some:
  "del_loop ch k = Some (v, ch') \<Longrightarrow>
     binding ch k = Some v \<and> length ch = Suc (length ch') \<and> set ch' \<subseteq> set ch \<and>
     (k' \<noteq> k \<longrightarrow> binding ch' k' = binding ch k')"
  by (induction ch arbitrary: ch') (auto split: option.splits if_splits)

lemma del_loop_distinct:
  "del_loop ch k = Some (v, ch') \<Longrightarrow> distinct (map key ch) \<Longrightarrow>
     distinct (map key ch') \<and> k \<notin> keys_of ch'"
proof (induction ch arbitrary: ch')
  case Nil
  then show ?case by simp
next
  case (Cons e ch)
  show ?case
  proof (cases "key e = k")
    case True
    with Cons.prems show ?thesis by (auto simp: keys_of_def)
  next
    case False
    with Cons.prems obtain r where r: "del_loop ch k = Some (v, r)" and ch': "ch' = e # r"
      by (auto split: option.splits)
    from Cons.prems have d: "distinct (map key ch)" and n: "key e \<notin> key ` set ch" by auto
    from Cons.IH [OF r d] have ih: "distinct (map key r)" "k \<notin> keys_of r" by auto
    from del_loop_Some [OF r] have "set r \<subseteq> set ch" by blast
    with n have "key e \<notin> key ` set r" by blast
    with ih False ch' show ?thesis by (auto simp: keys_of_def)
  qed
qed

section \<open>Operations on a valid map return\<close>

lemma valid_index: "valid_map m \<Longrightarrow> index_of m k = Some (unat k mod unat (capacity m))"
proof -
  assume v: "valid_map m"
  then have "unat (capacity m) \<noteq> 0" by (simp add: valid_map_def unat_eq_0)
  then have "unat k mod unat (capacity m) < unat (capacity m)" by simp
  with v show ?thesis by (simp add: index_of_def valid_map_def Let_def)
qed

lemma valid_index_less:
  "valid_map m \<Longrightarrow> unat (k::cint) mod unat (capacity m) < length (table m)"
  using valid_index [of m k] by (auto simp: index_of_def Let_def split: if_splits)

lemma get_valid:
  "valid_map m \<Longrightarrow>
     get m k = Some (get_loop (bucket m k) k, m\<lparr>numOps := numOps m + 1, gets := gets m + 1\<rparr>)"
  by (simp add: get_def valid_index bucket_def)

lemma put_valid:
  "valid_map m \<Longrightarrow>
     put m k v alloc_ok =
       (case put_loop (bucket m k) k v of
          Some (old_val, ch) \<Rightarrow>
            Some (old_val,
                  m\<lparr>table := (table m)[unat k mod unat (capacity m) := ch],
                    numOps := numOps m + 1, put_reps := put_reps m + 1\<rparr>)
        | None \<Rightarrow>
            if \<not> alloc_ok then Some (INT_MAX, m\<lparr>numOps := numOps m + 1\<rparr>)
            else Some (INT_MAX,
                  m\<lparr>table := (table m)[unat k mod unat (capacity m) :=
                                  bucket m k @ [\<lparr>key = k, val = v\<rparr>]],
                    size_c := size_c m + 1,
                    numOps := numOps m + 1, put_adds := put_adds m + 1\<rparr>))"
  by (simp add: put_def valid_index bucket_def split: option.splits)

lemma del_valid:
  "valid_map m \<Longrightarrow>
     del m k =
       (case del_loop (bucket m k) k of
          Some (v, ch) \<Rightarrow>
            Some (v,
                  m\<lparr>table := (table m)[unat k mod unat (capacity m) := ch],
                    size_c := size_c m - 1,
                    numOps := numOps m + 1, del_succ := del_succ m + 1\<rparr>)
        | None \<Rightarrow>
            Some (INT_MAX, m\<lparr>numOps := numOps m + 1, del_fail := del_fail m + 1\<rparr>))"
  by (simp add: del_def valid_index bucket_def split: option.splits)

lemma step_valid:
  "valid_map m \<Longrightarrow> \<exists>r m'. step m x = Some (r, m') \<and> valid_map m' \<and> capacity m' = capacity m"
proof (cases x)
  case (Get k)
  assume "valid_map m"
  then show ?thesis using Get by (simp add: get_valid valid_map_def)
next
  case (Put k v a)
  assume "valid_map m"
  then show ?thesis using Put
    by (cases "put_loop (bucket m k) k v") (auto simp: put_valid valid_map_def split: if_splits)
next
  case (Del k)
  assume "valid_map m"
  then show ?thesis using Del
    by (cases "del_loop (bucket m k) k") (auto simp: del_valid valid_map_def)
qed

lemma run_valid:
  "valid_map m \<Longrightarrow> \<exists>m'. run m xs = Some m' \<and> valid_map m' \<and> capacity m' = capacity m"
proof (induction xs arbitrary: m)
  case Nil
  then show ?case by simp
next
  case (Cons x xs)
  from step_valid [OF Cons.prems, of x] obtain r m1
    where s: "step m x = Some (r, m1)" and v: "valid_map m1" and c: "capacity m1 = capacity m"
    by blast
  from Cons.IH [OF v] c s show ?case by simp
qed

lemma initmap_valid:
  "initmap c (True, True, True) = (Some m, live) \<Longrightarrow> c \<noteq> 0 \<Longrightarrow> valid_map m \<and> capacity m = c"
  by (auto simp: initmap_def calloc_returns_def valid_map_def Let_def split: if_splits)

section \<open>The binding of a key\<close>

text \<open>
  An operation changes the binding of no key but its own; a put binds its key, and the
  value an operation returns is the binding it found.
\<close>

lemma get_frame: "valid_map m \<Longrightarrow> get m k = Some (r, m') \<Longrightarrow> bucket m' k' = bucket m k'"
  by (auto simp: get_valid bucket_def)

lemma put_frame:
  assumes "valid_map m" "put m k v a = Some (r, m')" "k' \<noteq> k"
  shows "binding (bucket m' k') k' = binding (bucket m k') k'"
proof (cases "put_loop (bucket m k) k v")
  case None
  with assms show ?thesis
    by (auto simp: put_valid bucket_def valid_index_less nth_list_update binding_append
             split: if_splits option.splits)
next
  case (Some p)
  then obtain old ch where p: "put_loop (bucket m k) k v = Some (old, ch)" by (cases p) auto
  from put_loop_binding [OF p, of k'] assms(3) have "binding ch k' = binding (bucket m k) k'"
    by simp
  with assms p show ?thesis
    by (auto simp: put_valid bucket_def valid_index_less nth_list_update split: if_splits)
qed

lemma del_frame:
  assumes "valid_map m" "del m k = Some (r, m')" "k' \<noteq> k"
  shows "binding (bucket m' k') k' = binding (bucket m k') k'"
proof (cases "del_loop (bucket m k) k")
  case None
  with assms show ?thesis by (auto simp: del_valid bucket_def)
next
  case (Some p)
  then obtain v ch where p: "del_loop (bucket m k) k = Some (v, ch)" by (cases p) auto
  from del_loop_Some [OF p, of k'] assms(3) have "binding ch k' = binding (bucket m k) k'"
    by simp
  with assms p show ?thesis
    by (auto simp: del_valid bucket_def valid_index_less nth_list_update split: if_splits)
qed

lemma step_frame:
  "valid_map m \<Longrightarrow> step m x = Some (r, m') \<Longrightarrow> \<not> mutates k x \<Longrightarrow>
     binding (bucket m' k) k = binding (bucket m k) k"
proof (cases x)
  case (Get k0)
  assume "valid_map m" "step m x = Some (r, m')"
  with Get show ?thesis by (simp add: get_frame)
next
  case (Put k0 v a)
  assume "valid_map m" "step m x = Some (r, m')" "\<not> mutates k x"
  with Put show ?thesis using put_frame [of m k0 v a r m' k] by auto
next
  case (Del k0)
  assume "valid_map m" "step m x = Some (r, m')" "\<not> mutates k x"
  with Del show ?thesis using del_frame [of m k0 r m' k] by auto
qed

lemma run_frame:
  "valid_map m \<Longrightarrow> run m xs = Some m' \<Longrightarrow> \<forall>x\<in>set xs. \<not> mutates k x \<Longrightarrow>
     binding (bucket m' k) k = binding (bucket m k) k"
proof (induction xs arbitrary: m)
  case Nil
  then show ?case by simp
next
  case (Cons x xs)
  from step_valid [OF Cons.prems(1), of x] obtain r m1
    where s: "step m x = Some (r, m1)" and v: "valid_map m1" by blast
  from Cons.prems(2) s have r: "run m1 xs = Some m'" by simp
  from Cons.prems(3) have nx: "\<not> mutates k x" and nxs: "\<forall>x\<in>set xs. \<not> mutates k x" by auto
  from Cons.IH [OF v r nxs] step_frame [OF Cons.prems(1) s nx] show ?case by simp
qed

lemma put_binding:
  "valid_map m \<Longrightarrow> put m k v True = Some (r, m') \<Longrightarrow> binding (bucket m' k) k = Some v"
proof (cases "put_loop (bucket m k) k v")
  case None
  assume "valid_map m" "put m k v True = Some (r, m')"
  moreover from None have "binding (table m ! (unat k mod unat (capacity m))) k = None"
    by (simp add: put_loop_None binding_None bucket_def)
  ultimately show ?thesis using None
    by (auto simp: put_valid bucket_def valid_index_less binding_append)
next
  case (Some p)
  assume a: "valid_map m" "put m k v True = Some (r, m')"
  from Some obtain old ch where p: "put_loop (bucket m k) k v = Some (old, ch)" by (cases p) auto
  from put_loop_binding [OF p, of k] have "binding ch k = Some v" by simp
  with a p show ?thesis by (auto simp: put_valid bucket_def valid_index_less nth_list_update)
qed

lemma put_result:
  "valid_map m \<Longrightarrow> put m k v a = Some (r, m') \<Longrightarrow>
     r = (case binding (bucket m k) k of None \<Rightarrow> INT_MAX | Some old \<Rightarrow> old)"
proof (cases "put_loop (bucket m k) k v")
  case None
  assume "valid_map m" "put m k v a = Some (r, m')"
  moreover from None have "binding (bucket m k) k = None" by (simp add: put_loop_None binding_None)
  ultimately show ?thesis using None by (auto simp: put_valid split: if_splits)
next
  case (Some p)
  assume a: "valid_map m" "put m k v a = Some (r, m')"
  from Some obtain old ch where p: "put_loop (bucket m k) k v = Some (old, ch)" by (cases p) auto
  from put_loop_old [OF p] a p show ?thesis by (auto simp: put_valid)
qed

lemma del_result:
  "valid_map m \<Longrightarrow> del m k = Some (r, m') \<Longrightarrow>
     r = (case binding (bucket m k) k of None \<Rightarrow> INT_MAX | Some v \<Rightarrow> v)"
proof (cases "del_loop (bucket m k) k")
  case None
  assume "valid_map m" "del m k = Some (r, m')"
  moreover from None have "binding (bucket m k) k = None" by (simp add: del_loop_None binding_None)
  ultimately show ?thesis using None by (auto simp: del_valid)
next
  case (Some p)
  assume a: "valid_map m" "del m k = Some (r, m')"
  from Some obtain v ch where p: "del_loop (bucket m k) k = Some (v, ch)" by (cases p) auto
  from del_loop_Some [OF p] a p show ?thesis by (auto simp: del_valid)
qed

lemma get_result:
  "valid_map m \<Longrightarrow> get m k = Some (r, m') \<Longrightarrow>
     r = (case binding (bucket m k) k of None \<Rightarrow> INT_MAX | Some v \<Rightarrow> v)"
  by (auto simp: get_valid get_loop_binding)

section \<open>The invariant of the chains\<close>

lemma chain_inv_keys:
  "chain_inv cap i ch = (distinct (map key ch) \<and> (\<forall>k\<in>keys_of ch. unat k mod unat cap = i))"
  by (auto simp: chain_inv_def keys_of_def list_all_iff)

lemma chains_inv_nth:
  "chains_inv m = (\<forall>i<length (table m). chain_inv (capacity m) i (table m ! i))"
  by (auto simp: chains_inv_def list_all_iff in_set_enumerate_eq)

lemma chains_inv_update:
  assumes "chains_inv m" "i < length (table m)" "chain_inv (capacity m) i ch"
    "table m' = (table m)[i := ch]" "capacity m' = capacity m"
  shows "chains_inv m'"
  using assms by (auto simp: chains_inv_nth nth_list_update)

lemma put_chains:
  assumes v: "valid_map m" and c: "chains_inv m" and p: "put m k v a = Some (r, m')"
  shows "chains_inv m'"
proof -
  let ?i = "unat k mod unat (capacity m)"
  have i: "?i < length (table m)" using v by (rule valid_index_less)
  with c have ci: "chain_inv (capacity m) ?i (bucket m k)"
    by (simp add: chains_inv_nth bucket_def)
  show ?thesis
  proof (cases "put_loop (bucket m k) k v")
    case None
    show ?thesis
    proof (cases a)
      case False
      with None v p have "table m' = table m" "capacity m' = capacity m"
        by (auto simp: put_valid)
      with c show ?thesis by (simp add: chains_inv_nth)
    next
      case True
      from None have "k \<notin> keys_of (bucket m k)" by (simp add: put_loop_None)
      with ci have "chain_inv (capacity m) ?i (bucket m k @ [\<lparr>key = k, val = v\<rparr>])"
        by (auto simp: chain_inv_keys keys_of_def)
      moreover from None True v p
      have "table m' = (table m)[?i := bucket m k @ [\<lparr>key = k, val = v\<rparr>]]"
        "capacity m' = capacity m"
        by (auto simp: put_valid)
      ultimately show ?thesis using c i by (blast intro: chains_inv_update)
    qed
  next
    case (Some q)
    then obtain old ch where q: "put_loop (bucket m k) k v = Some (old, ch)" by (cases q) auto
    from put_loop_keys [OF q] ci have "chain_inv (capacity m) ?i ch"
      by (simp add: chain_inv_keys keys_of_def)
    moreover from q v p have "table m' = (table m)[?i := ch]" "capacity m' = capacity m"
      by (auto simp: put_valid)
    ultimately show ?thesis using c i by (blast intro: chains_inv_update)
  qed
qed

lemma del_chains:
  assumes v: "valid_map m" and c: "chains_inv m" and d: "del m k = Some (r, m')"
  shows "chains_inv m' \<and> binding (bucket m' k) k = None"
proof -
  let ?i = "unat k mod unat (capacity m)"
  have i: "?i < length (table m)" using v by (rule valid_index_less)
  with c have ci: "chain_inv (capacity m) ?i (bucket m k)"
    by (simp add: chains_inv_nth bucket_def)
  show ?thesis
  proof (cases "del_loop (bucket m k) k")
    case None
    with v d have "table m' = table m" "capacity m' = capacity m"
      by (auto simp: del_valid)
    moreover from None have "binding (bucket m k) k = None"
      by (simp add: del_loop_None binding_None)
    ultimately show ?thesis using c by (simp add: chains_inv_nth bucket_def)
  next
    case (Some q)
    then obtain w ch where q: "del_loop (bucket m k) k = Some (w, ch)" by (cases q) auto
    from ci have dist: "distinct (map key (bucket m k))" by (simp add: chain_inv_keys)
    from del_loop_distinct [OF q dist] have ch: "distinct (map key ch)" "k \<notin> keys_of ch"
      by simp_all
    from del_loop_Some [OF q] have "set ch \<subseteq> set (bucket m k)" by blast
    then have "keys_of ch \<subseteq> keys_of (bucket m k)" by (auto simp: keys_of_def)
    with ci ch have nci: "chain_inv (capacity m) ?i ch" by (auto simp: chain_inv_keys)
    from q v d have t: "table m' = (table m)[?i := ch]" "capacity m' = capacity m"
      by (auto simp: del_valid)
    with nci c i have "chains_inv m'" by (blast intro: chains_inv_update)
    moreover from t i have "bucket m' k = ch" by (simp add: bucket_def)
    ultimately show ?thesis using ch by (simp add: binding_None)
  qed
qed

lemma step_chains:
  "valid_map m \<Longrightarrow> chains_inv m \<Longrightarrow> step m x = Some (r, m') \<Longrightarrow> chains_inv m'"
proof (cases x)
  case (Get k)
  assume "valid_map m" "chains_inv m" "step m x = Some (r, m')"
  with Get show ?thesis by (auto simp: get_valid chains_inv_nth)
next
  case (Put k v a)
  assume "valid_map m" "chains_inv m" "step m x = Some (r, m')"
  with Put show ?thesis using put_chains [of m k v a r m'] by simp
next
  case (Del k)
  assume "valid_map m" "chains_inv m" "step m x = Some (r, m')"
  with Del show ?thesis using del_chains [of m k r m'] by simp
qed

lemma run_chains:
  "valid_map m \<Longrightarrow> chains_inv m \<Longrightarrow> run m xs = Some m' \<Longrightarrow> chains_inv m'"
proof (induction xs arbitrary: m)
  case Nil
  then show ?case by simp
next
  case (Cons x xs)
  from step_valid [OF Cons.prems(1), of x] obtain r m1
    where s: "step m x = Some (r, m1)" and v: "valid_map m1" by blast
  from Cons.prems(3) s have r: "run m1 xs = Some m'" by simp
  from step_chains [OF Cons.prems(1,2) s] have "chains_inv m1" .
  from Cons.IH [OF v this r] show ?case .
qed

lemma initmap_chains:
  "initmap c (True, True, True) = (Some m, live) \<Longrightarrow> chains_inv m"
  by (auto simp: initmap_def calloc_returns_def Let_def chains_inv_nth chain_inv_keys keys_of_def
        split: if_splits)

section \<open>The size and the counters\<close>

lemma entries_update:
  "i < length xs \<Longrightarrow>
     sum_list (map length (xs[i := ch])) + length (xs ! i) = sum_list (map length xs) + length ch"
proof (induction xs arbitrary: i)
  case Nil
  then show ?case by simp
next
  case (Cons x xs)
  then show ?case by (cases i) auto
qed

lemma put_loop_length: "put_loop ch k v = Some (old, ch') \<Longrightarrow> length ch' = length ch"
  using put_loop_keys [of ch k v old ch'] by (metis length_map)

lemma put_entries:
  assumes v: "valid_map m" and p: "put m k v a = Some (r, m')"
  shows "entries m' = entries m + (if inserts m (Put k v a) then 1 else 0) \<and>
         size_c m' = size_c m + (if inserts m (Put k v a) then 1 else 0)"
proof -
  let ?i = "unat k mod unat (capacity m)"
  have i: "?i < length (table m)" using v by (rule valid_index_less)
  show ?thesis
  proof (cases "put_loop (bucket m k) k v")
    case None
    show ?thesis
    proof (cases a)
      case False
      with None v p show ?thesis by (auto simp: put_valid entries_def)
    next
      case True
      from None True v p
      have t: "table m' = (table m)[?i := bucket m k @ [\<lparr>key = k, val = v\<rparr>]]"
        and s: "size_c m' = size_c m + 1"
        by (auto simp: put_valid)
      from entries_update [OF i, of "bucket m k @ [\<lparr>key = k, val = v\<rparr>]"] t
      have "entries m' = entries m + 1" by (simp add: entries_def bucket_def)
      with s None True show ?thesis by simp
    qed
  next
    case (Some q)
    then obtain old ch where q: "put_loop (bucket m k) k v = Some (old, ch)" by (cases q) auto
    from q v p have t: "table m' = (table m)[?i := ch]" and s: "size_c m' = size_c m"
      by (auto simp: put_valid)
    from entries_update [OF i, of ch] t put_loop_length [OF q]
    have "entries m' = entries m" by (simp add: entries_def bucket_def)
    with s q show ?thesis by simp
  qed
qed

lemma del_entries:
  assumes v: "valid_map m" and d: "del m k = Some (r, m')"
  shows "entries m' + (if deletes m (Del k) then 1 else 0) = entries m \<and>
         size_c m' + (if deletes m (Del k) then 1 else 0) = size_c m"
proof -
  let ?i = "unat k mod unat (capacity m)"
  have i: "?i < length (table m)" using v by (rule valid_index_less)
  show ?thesis
  proof (cases "del_loop (bucket m k) k")
    case None
    with v d show ?thesis by (auto simp: del_valid entries_def)
  next
    case (Some q)
    then obtain w ch where q: "del_loop (bucket m k) k = Some (w, ch)" by (cases q) auto
    from q v d have t: "table m' = (table m)[?i := ch]" and s: "size_c m' = size_c m - 1"
      by (auto simp: del_valid)
    from del_loop_Some [OF q] have "length (bucket m k) = Suc (length ch)" by blast
    with entries_update [OF i, of ch] t
    have "entries m' + 1 = entries m" by (simp add: entries_def bucket_def)
    with s q show ?thesis by simp
  qed
qed

lemma step_entries:
  assumes v: "valid_map m" and s: "step m x = Some (r, m')"
  shows "entries m' + (if deletes m x then 1 else 0) =
           entries m + (if inserts m x then 1 else 0) \<and>
         size_c m' + (if deletes m x then 1 else 0) =
           size_c m + (if inserts m x then 1 else 0)"
proof (cases x)
  case (Get k)
  with v s show ?thesis by (auto simp: get_valid entries_def)
next
  case (Put k w a)
  with v s put_entries [of m k w a r m'] show ?thesis by simp
next
  case (Del k)
  with v s del_entries [of m k r m'] show ?thesis by simp
qed

lemma word_pair_step:
  fixes z' z1 z d i dx ix :: cint
  assumes a1: "z' + d = z1 + i" and a2: "z1 + dx = z + ix"
  shows "z' + (dx + d) = z + (ix + i)"
proof -
  have "z' + (dx + d) = (z' + d) + dx" by (simp add: ac_simps)
  also have "\<dots> = (z1 + i) + dx" by (simp only: a1)
  also have "\<dots> = (z1 + dx) + i" by (simp add: ac_simps)
  also have "\<dots> = (z + ix) + i" by (simp only: a2)
  finally show ?thesis by (simp add: ac_simps)
qed

lemma run_entries:
  "valid_map m \<Longrightarrow> run m xs = Some m' \<Longrightarrow>
     entries m' + tally deletes m xs = entries m + tally inserts m xs \<and>
     size_c m' + of_nat (tally deletes m xs) = size_c m + of_nat (tally inserts m xs)"
proof (induction xs arbitrary: m)
  case Nil
  then show ?case by simp
next
  case (Cons x xs)
  from step_valid [OF Cons.prems(1), of x] obtain r m1
    where s: "step m x = Some (r, m1)" and v: "valid_map m1" by blast
  from Cons.prems(2) s have r: "run m1 xs = Some m'" by simp
  from Cons.IH [OF v r]
  have ih1: "entries m' + tally deletes m1 xs = entries m1 + tally inserts m1 xs"
    and ih2: "size_c m' + of_nat (tally deletes m1 xs) = size_c m1 + of_nat (tally inserts m1 xs)"
    by blast+
  from step_entries [OF Cons.prems(1) s]
  have st1: "entries m1 + (if deletes m x then 1 else 0) =
               entries m + (if inserts m x then 1 else 0)"
    and st2: "size_c m1 + (if deletes m x then 1 else 0) =
               size_c m + (if inserts m x then 1 else 0)"
    by blast+
  have t1: "tally deletes m (x # xs) = (if deletes m x then 1 else 0) + tally deletes m1 xs"
    and t2: "tally inserts m (x # xs) = (if inserts m x then 1 else 0) + tally inserts m1 xs"
    using s by simp_all
  have w1: "(of_nat (tally deletes m (x # xs)) :: cint) =
              (if deletes m x then 1 else 0) + of_nat (tally deletes m1 xs)"
    and w2: "(of_nat (tally inserts m (x # xs)) :: cint) =
              (if inserts m x then 1 else 0) + of_nat (tally inserts m1 xs)"
    using s by simp_all
  have a: "entries m' + tally deletes m (x # xs) = entries m + tally inserts m (x # xs)"
    using ih1 st1 unfolding t1 t2 by linarith
  have b: "size_c m' + of_nat (tally deletes m (x # xs)) =
             size_c m + of_nat (tally inserts m (x # xs))"
    unfolding w1 w2 by (rule word_pair_step [OF ih2 st2])
  from a b show ?case by blast
qed

lemma step_counters:
  assumes v: "valid_map m" and s: "step m x = Some (r, m')"
  shows "numOps m' = numOps m + 1 \<and>
         gets m' + put_adds m' + put_reps m' + del_succ m' + del_fail m' +
           (if aborts m x then 1 else 0) =
         gets m + put_adds m + put_reps m + del_succ m + del_fail m + 1 \<and>
         put_adds m' = put_adds m + (if inserts m x then 1 else 0) \<and>
         del_succ m' = del_succ m + (if deletes m x then 1 else 0)"
proof (cases x)
  case (Get k)
  with v s show ?thesis by (auto simp: get_valid)
next
  case (Put k w a)
  with v s show ?thesis
    by (cases "put_loop (bucket m k) k w") (auto simp: put_valid split: if_splits)
next
  case (Del k)
  with v s show ?thesis
    by (cases "del_loop (bucket m k) k") (auto simp: del_valid)
qed

lemma word_sum_step:
  fixes s' s1 s b :: cint
  assumes a1: "s' + of_nat t = s1 + of_nat n" and a2: "s1 + b = s + 1"
  shows "s' + (b + of_nat t) = s + of_nat (Suc n)"
proof -
  have "s' + (b + of_nat t) = (s' + of_nat t) + b" by (simp add: ac_simps)
  also have "\<dots> = (s1 + of_nat n) + b" by (simp only: a1)
  also have "\<dots> = (s1 + b) + of_nat n" by (simp add: ac_simps)
  also have "\<dots> = (s + 1) + of_nat n" by (simp only: a2)
  finally show ?thesis by (simp add: ac_simps)
qed

lemma run_counters:
  "valid_map m \<Longrightarrow> run m xs = Some m' \<Longrightarrow>
     numOps m' = numOps m + of_nat (length xs) \<and>
     gets m' + put_adds m' + put_reps m' + del_succ m' + del_fail m' +
       of_nat (tally aborts m xs) =
     gets m + put_adds m + put_reps m + del_succ m + del_fail m + of_nat (length xs) \<and>
     put_adds m' = put_adds m + of_nat (tally inserts m xs) \<and>
     del_succ m' = del_succ m + of_nat (tally deletes m xs)"
proof (induction xs arbitrary: m)
  case Nil
  then show ?case by simp
next
  case (Cons x xs)
  from step_valid [OF Cons.prems(1), of x] obtain r m1
    where s: "step m x = Some (r, m1)" and v: "valid_map m1" by blast
  from Cons.prems(2) s have r: "run m1 xs = Some m'" by simp
  note ih = Cons.IH [OF v r]
  note st = step_counters [OF Cons.prems(1) s]
  have n: "numOps m' = numOps m + of_nat (length (x # xs))"
    using ih st by simp
  have a: "put_adds m' = put_adds m + of_nat (tally inserts m (x # xs))"
    using ih st s by simp
  have d: "del_succ m' = del_succ m + of_nat (tally deletes m (x # xs))"
    using ih st s by simp
  from ih have ih2: "gets m' + put_adds m' + put_reps m' + del_succ m' + del_fail m' +
       of_nat (tally aborts m1 xs) =
     gets m1 + put_adds m1 + put_reps m1 + del_succ m1 + del_fail m1 + of_nat (length xs)"
    by blast
  from st have st2: "gets m1 + put_adds m1 + put_reps m1 + del_succ m1 + del_fail m1 +
           (if aborts m x then 1 else 0) =
         gets m + put_adds m + put_reps m + del_succ m + del_fail m + 1"
    by blast
  have t: "(of_nat (tally aborts m (x # xs)) :: cint) =
             (if aborts m x then 1 else 0) + of_nat (tally aborts m1 xs)"
    using s by simp
  have c: "gets m' + put_adds m' + put_reps m' + del_succ m' + del_fail m' +
       of_nat (tally aborts m (x # xs)) =
     gets m + put_adds m + put_reps m + del_succ m + del_fail m + of_nat (length (x # xs))"
    unfolding t length_Cons by (rule word_sum_step [OF ih2 st2])
  from n a d c show ?case by blast
qed

subsection \<open>Counters that do not overflow\<close>

lemma tally_le: "tally P m xs \<le> length xs"
proof (induction xs arbitrary: m)
  case Nil
  then show ?case by simp
next
  case (Cons x xs)
  show ?case
  proof (cases "step m x")
    case None
    then show ?thesis by simp
  next
    case (Some q)
    then obtain r m1 where "step m x = Some (r, m1)" by (cases q) auto
    with Cons.IH [of m1] show ?thesis by simp
  qed
qed

lemma unat_incr: "unat (c::cint) + 1 < 2 ^ 32 \<Longrightarrow> unat (c + 1) = unat c + 1"
  using unat_add_lem [of c 1] by simp

lemma sint_small: "unat (c::cint) < 2 ^ 31 \<Longrightarrow> sint c = int (unat c)"
proof -
  assume "unat c < 2 ^ 31"
  then have "int (unat c) < 2 ^ 31" by (metis of_nat_less_iff of_nat_numeral of_nat_power)
  then have u: "uint c < 2 ^ 31" by simp
  have "sint c = signed_take_bit 31 (uint c)" by (simp add: sint_uint)
  also have "\<dots> = uint c"
  proof (rule signed_take_bit_int_eq_self)
    have "- (2 ^ 31) \<le> (0::int)" by simp
    also have "0 \<le> uint c" by simp
    finally show "- (2 ^ 31) \<le> uint c" .
    show "uint c < 2 ^ 31" by (rule u)
  qed
  finally show ?thesis by simp
qed

lemma sint_of_nat_small: "n < 2 ^ 31 \<Longrightarrow> sint (of_nat n :: cint) = int n"
proof -
  assume n: "n < 2 ^ 31"
  then have "n < 2 ^ 32" by simp
  then have "unat (of_nat n :: cint) = n" by (simp add: unat_of_nat)
  with n sint_small [of "of_nat n"] show ?thesis by simp
qed

lemma step_outcomes:
  assumes v: "valid_map m" and s: "step m x = Some (r, m')" and b: "outcomes m + 1 < 2 ^ 32"
  shows "outcomes m' + (if aborts m x then 1 else 0) = outcomes m + 1"
proof -
  from b have g: "unat (gets m) + 1 < 2 ^ 32" "unat (put_adds m) + 1 < 2 ^ 32"
    "unat (put_reps m) + 1 < 2 ^ 32" "unat (del_succ m) + 1 < 2 ^ 32"
    "unat (del_fail m) + 1 < 2 ^ 32"
    by (simp_all add: outcomes_def)
  show ?thesis
  proof (cases x)
    case (Get k)
    with v s g show ?thesis by (auto simp: get_valid outcomes_def unat_incr)
  next
    case (Put k w a)
    with v s g show ?thesis
      by (cases "put_loop (bucket m k) k w")
         (auto simp: put_valid outcomes_def unat_incr split: if_splits)
  next
    case (Del k)
    with v s g show ?thesis
      by (cases "del_loop (bucket m k) k") (auto simp: del_valid outcomes_def unat_incr)
  qed
qed

lemma run_outcomes:
  "valid_map m \<Longrightarrow> run m xs = Some m' \<Longrightarrow> outcomes m + length xs < 2 ^ 32 \<Longrightarrow>
     outcomes m' + tally aborts m xs = outcomes m + length xs"
proof (induction xs arbitrary: m)
  case Nil
  then show ?case by simp
next
  case (Cons x xs)
  from step_valid [OF Cons.prems(1), of x] obtain r m1
    where s: "step m x = Some (r, m1)" and v: "valid_map m1" by blast
  from Cons.prems(2) s have r: "run m1 xs = Some m'" by simp
  from Cons.prems(3) have b: "outcomes m + 1 < 2 ^ 32" by simp
  from step_outcomes [OF Cons.prems(1) s b]
  have st: "outcomes m1 + (if aborts m x then 1 else 0) = outcomes m + 1" .
  with Cons.prems(3) have "outcomes m1 + length xs < 2 ^ 32" by (simp split: if_splits)
  from Cons.IH [OF v r this] st s show ?case by (simp split: if_splits)
qed

section \<open>Reachable maps\<close>

lemma reach_inv:
  assumes "initmap c (True, True, True) = (Some m0, live)" "c \<noteq> 0" "run m0 pre = Some m"
  shows "valid_map m \<and> chains_inv m \<and> capacity m = c"
proof -
  from initmap_valid [OF assms(1,2)] have v0: "valid_map m0" and c0: "capacity m0 = c" by simp_all
  from initmap_chains [OF assms(1)] have i0: "chains_inv m0" .
  from run_valid [OF v0, of pre] assms(3) have "valid_map m" "capacity m = capacity m0" by auto
  with run_chains [OF v0 i0 assms(3)] c0 show ?thesis by simp
qed

lemma put_not_aborted:
  assumes v: "valid_map m" and n: "\<not> aborts m (Put k v a)"
  shows "put m k v a = put m k v True"
proof (cases a)
  case True
  then show ?thesis by simp
next
  case False
  with n have "put_loop (bucket m k) k v \<noteq> None" by simp
  then obtain old ch where "put_loop (bucket m k) k v = Some (old, ch)" by auto
  with v show ?thesis by (simp add: put_valid)
qed

lemma put_total: "valid_map m \<Longrightarrow> \<exists>r m'. put m k v a = Some (r, m') \<and> valid_map m'"
  using step_valid [of m "Put k v a"] by auto

lemma get_total:
  "valid_map m \<Longrightarrow>
     \<exists>m'. get m k = Some (case binding (bucket m k) k of None \<Rightarrow> INT_MAX | Some v \<Rightarrow> v, m')"
  by (simp add: get_valid get_loop_binding)

lemma del_total:
  assumes "valid_map m"
  shows "\<exists>m'. del m k = Some (case binding (bucket m k) k of None \<Rightarrow> INT_MAX | Some v \<Rightarrow> v, m')
            \<and> valid_map m'"
proof -
  from step_valid [OF assms, of "Del k"] obtain r m'
    where d: "del m k = Some (r, m')" and v: "valid_map m'" by auto
  from del_result [OF assms d] d v show ?thesis by simp
qed

lemma absent_bucket:
  assumes "valid_map m" "k \<notin> keys_of (concat (table m))"
  shows "binding (bucket m k) k = None"
proof -
  from valid_index_less [OF assms(1), of k] have "bucket m k \<in> set (table m)"
    by (simp add: bucket_def)
  with assms(2) have "k \<notin> keys_of (bucket m k)" by (auto simp: keys_of_def)
  then show ?thesis by (simp add: binding_None)
qed

lemma distinct_concat_routed:
  "(\<forall>i<length xss. distinct (xss ! i) \<and> (\<forall>x\<in>set (xss ! i). f x = i)) \<Longrightarrow>
     distinct (concat xss) \<and> (\<forall>x\<in>set (concat xss). f x < length xss)"
proof (induction xss rule: rev_induct)
  case Nil
  then show ?case by simp
next
  case (snoc ys xss)
  have pre: "\<forall>i<length xss. distinct (xss ! i) \<and> (\<forall>x\<in>set (xss ! i). f x = i)"
  proof (intro allI impI)
    fix i assume i: "i < length xss"
    with snoc.prems have "distinct ((xss @ [ys]) ! i) \<and> (\<forall>x\<in>set ((xss @ [ys]) ! i). f x = i)"
      by simp
    with i show "distinct (xss ! i) \<and> (\<forall>x\<in>set (xss ! i). f x = i)" by (simp add: nth_append)
  qed
  from snoc.IH [OF pre] have d: "distinct (concat xss)"
    and b: "\<forall>x\<in>set (concat xss). f x < length xss" by simp_all
  have "length xss < length (xss @ [ys])" by simp
  from snoc.prems [rule_format, OF this]
  have ys: "distinct ys" "\<forall>x\<in>set ys. f x = length xss" by simp_all
  from b ys(2) have "set (concat xss) \<inter> set ys = {}" by fastforce
  with d ys(1) have one: "distinct (concat (xss @ [ys]))" by simp
  have two: "\<forall>x\<in>set (concat (xss @ [ys])). f x < length (xss @ [ys])"
  proof
    fix x assume "x \<in> set (concat (xss @ [ys]))"
    then have "x \<in> set (concat xss) \<or> x \<in> set ys" by simp
    then show "f x < length (xss @ [ys])"
    proof
      assume "x \<in> set (concat xss)"
      with b have "f x < length xss" by blast
      then show ?thesis by simp
    next
      assume "x \<in> set ys"
      with ys(2) have "f x = length xss" by blast
      then show ?thesis by simp
    qed
  qed
  from one two show ?case by blast
qed

lemma chains_inv_distinct:
  assumes "chains_inv m"
  shows "distinct (map key (concat (table m)))"
proof -
  let ?xss = "map (map key) (table m)"
  have "\<forall>i<length ?xss. distinct (?xss ! i) \<and>
          (\<forall>x\<in>set (?xss ! i). unat x mod unat (capacity m) = i)"
    using assms by (auto simp: chains_inv_nth chain_inv_keys keys_of_def)
  from distinct_concat_routed [OF this] show ?thesis by (simp add: map_concat)
qed

section \<open>The claims of the specification\<close>

text \<open>
  In what follows a freshly created map is what \<^verbatim>\<open>initmap\<close> returns when its three
  allocations succeed, and the operations are the calls of one thread, one after the other.
  The capacity is not zero, and then positive, as \<^verbatim>\<open>initmap\<close> returns no map for a
  negative one: with capacity 0 the first line of every operation divides by zero. A statement \<open>\<exists>m'. f m = Some (r, m')\<close> says that the call returns, and what.
\<close>

text \<open>
  Claim C1 (read after write). As stated, for every key and value, \<^verbatim>\<open>get(k)\<close> returns
  \<open>v\<close> once \<^verbatim>\<open>put(k, v)\<close> has returned, until the next put or delete on \<open>k\<close>. The code
  does so for every put that is not cut short by a failed allocation: starting from a freshly
  created map and any sequence \<open>pre\<close> of operations, a put of \<open>v\<close> under \<open>k\<close> that is not
  aborted, followed by any operations \<open>xs\<close> none of which is a put or delete on \<open>k\<close>, makes
  \<^verbatim>\<open>get(k)\<close> return \<open>v\<close>; and all these calls return.
\<close>

theorem read_after_write:
  assumes "initmap c (True, True, True) = (Some m0, live)" and "c \<noteq> 0"
    and "run m0 pre = Some m"
    and "\<not> aborts m (Put k v a)"
    and "\<forall>x\<in>set xs. \<not> mutates k x"
  shows "\<exists>r m1 m2 m3.
           put m k v a = Some (r, m1) \<and> run m1 xs = Some m2 \<and> get m2 k = Some (v, m3)"
proof -
  from reach_inv [OF assms(1-3)] have vm: "valid_map m" by simp
  from put_total [OF vm] obtain r m1
    where p: "put m k v a = Some (r, m1)" and vm1: "valid_map m1" by blast
  from put_not_aborted [OF vm assms(4)] p have "put m k v True = Some (r, m1)" by simp
  from put_binding [OF vm this] have b1: "binding (bucket m1 k) k = Some v" .
  from run_valid [OF vm1, of xs] obtain m2
    where r: "run m1 xs = Some m2" and vm2: "valid_map m2" by blast
  from run_frame [OF vm1 r assms(5)] b1 have "binding (bucket m2 k) k = Some v" by simp
  with get_total [OF vm2, of k] obtain m3 where "get m2 k = Some (v, m3)" by auto
  with p r show ?thesis by blast
qed

text \<open>
  The statement at the map of capacity 4 holding keys 1 and 5: key 1 is overwritten with 11
  (no allocation is needed, so its outcome is not consulted), other keys are read, deleted
  and inserted, and key 1 still reads 11.
\<close>

theorem read_after_write_witness:
  "initmap 4 (True, True, True) = (Some fresh4, [LocksBlock, TableBlock, MapBlock]) \<and>
   run fresh4 [Put 1 10 True, Put 5 20 True] = Some two_keys \<and>
   (\<exists>r m1 m2 m3. put two_keys 1 11 False = Some (r, m1) \<and>
      run m1 [Get 1, Del 5, Put 2 7 True, Put 9 3 False] = Some m2 \<and>
      get m2 1 = Some (11, m3))"
proof -
  have h1: "initmap 4 (True, True, True) = (Some fresh4, [LocksBlock, TableBlock, MapBlock])"
    by code_simp
  have h2: "(4::cint) \<noteq> 0" by simp
  have h3: "run fresh4 [Put 1 10 True, Put 5 20 True] = Some two_keys" by code_simp
  have h4: "\<not> aborts two_keys (Put 1 11 False)" by code_simp
  have h5: "\<forall>x\<in>set [Get 1, Del 5, Put 2 7 True, Put 9 3 False]. \<not> mutates 1 x" by simp
  from read_after_write [OF h1 h2 h3 h4 h5] h1 h3 show ?thesis by blast
qed

text \<open>
  Claim C1 fails when the allocation of the new entry fails: on the fresh map of capacity 4,
  \<^verbatim>\<open>put(1, 10)\<close> with \<^verbatim>\<open>malloc\<close> returning \<^verbatim>\<open>NULL\<close> returns \<^verbatim>\<open>INT_MAX\<close> and
  stores nothing, and the following \<^verbatim>\<open>get(1)\<close> returns \<^verbatim>\<open>INT_MAX\<close>, not 10.
\<close>

theorem read_after_write_counterexample:
  "initmap 4 (True, True, True) = (Some fresh4, [LocksBlock, TableBlock, MapBlock]) \<and>
   put fresh4 1 10 False = Some (INT_MAX, fresh4\<lparr>numOps := 1\<rparr>) \<and>
   get (fresh4\<lparr>numOps := 1\<rparr>) 1 = Some (INT_MAX, fresh4\<lparr>numOps := 2, gets := 1\<rparr>) \<and>
   INT_MAX \<noteq> 10"
  by code_simp

text \<open>
  Claim C2 (insert or replace). For a key \<open>k\<close> that no chain of the map holds,
  \<^verbatim>\<open>put(k, v1)\<close> returns \<^verbatim>\<open>INT_MAX\<close>, the value for "the key was new", whatever the
  allocation does. When the allocation succeeds, the next put on \<open>k\<close>, after any operations
  \<open>xs\<close> that are neither a put nor a delete on \<open>k\<close>, returns \<open>v1\<close>.
\<close>

theorem insert_then_replace:
  assumes "initmap c (True, True, True) = (Some m0, live)" and "c \<noteq> 0"
    and "run m0 pre = Some m"
    and "k \<notin> keys_of (concat (table m))"
    and "\<forall>x\<in>set xs. \<not> mutates k x"
  shows "(\<exists>m1. put m k v1 a1 = Some (INT_MAX, m1)) \<and>
         (\<exists>m1 m2 m3. put m k v1 True = Some (INT_MAX, m1) \<and> run m1 xs = Some m2 \<and>
            put m2 k v2 a2 = Some (v1, m3))"
proof -
  from reach_inv [OF assms(1-3)] have vm: "valid_map m" by simp
  from absent_bucket [OF vm assms(4)] have b: "binding (bucket m k) k = None" .
  from put_total [OF vm] obtain r0 n1 where p0: "put m k v1 a1 = Some (r0, n1)" by blast
  from put_result [OF vm p0] b have "r0 = INT_MAX" by simp
  with p0 have one: "\<exists>m1. put m k v1 a1 = Some (INT_MAX, m1)" by blast
  from put_total [OF vm] obtain r m1
    where p: "put m k v1 True = Some (r, m1)" and vm1: "valid_map m1" by blast
  from put_result [OF vm p] b have r: "r = INT_MAX" by simp
  from put_binding [OF vm p] have b1: "binding (bucket m1 k) k = Some v1" .
  from run_valid [OF vm1, of xs] obtain m2
    where rn: "run m1 xs = Some m2" and vm2: "valid_map m2" by blast
  from run_frame [OF vm1 rn assms(5)] b1 have b2: "binding (bucket m2 k) k = Some v1" by simp
  from put_total [OF vm2] obtain r2 m3 where p2: "put m2 k v2 a2 = Some (r2, m3)" by blast
  from put_result [OF vm2 p2] b2 have "r2 = v1" by simp
  with p r rn p2 have "\<exists>m1 m2 m3. put m k v1 True = Some (INT_MAX, m1) \<and>
      run m1 xs = Some m2 \<and> put m2 k v2 a2 = Some (v1, m3)"
    by blast
  with one show ?thesis by blast
qed

text \<open>
  The statement at the map holding keys 1 and 5, for the new key 9: inserted with value 30,
  other keys are read, deleted and overwritten, and the next put on 9 returns 30.
\<close>

theorem insert_then_replace_witness:
  "initmap 4 (True, True, True) = (Some fresh4, [LocksBlock, TableBlock, MapBlock]) \<and>
   run fresh4 [Put 1 10 True, Put 5 20 True] = Some two_keys \<and>
   9 \<notin> keys_of (concat (table two_keys)) \<and>
   (\<exists>m1. put two_keys 9 30 False = Some (INT_MAX, m1)) \<and>
   (\<exists>m1 m2 m3. put two_keys 9 30 True = Some (INT_MAX, m1) \<and>
      run m1 [Get 9, Del 1, Put 5 21 True] = Some m2 \<and>
      put m2 9 31 False = Some (30, m3))"
proof -
  have h1: "initmap 4 (True, True, True) = (Some fresh4, [LocksBlock, TableBlock, MapBlock])"
    by code_simp
  have h2: "(4::cint) \<noteq> 0" by simp
  have h3: "run fresh4 [Put 1 10 True, Put 5 20 True] = Some two_keys" by code_simp
  have h4: "9 \<notin> keys_of (concat (table two_keys))" by code_simp
  have h5: "\<forall>x\<in>set [Get 9, Del 1, Put 5 21 True]. \<not> mutates 9 x" by simp
  from insert_then_replace [OF h1 h2 h3 h4 h5, of 30 False 31 False] h1 h3 h4
  show ?thesis by blast
qed

text \<open>
  Claim C2 as stated promises \<open>v1\<close> from the second put after every first put on a fresh
  key. When the allocation of the first put fails the key stays absent, and the second
  \<^verbatim>\<open>put(1, 11)\<close> returns \<^verbatim>\<open>INT_MAX\<close> again, not 10.
\<close>

theorem insert_then_replace_counterexample:
  "initmap 4 (True, True, True) = (Some fresh4, [LocksBlock, TableBlock, MapBlock]) \<and>
   1 \<notin> keys_of (concat (table fresh4)) \<and>
   put fresh4 1 10 False = Some (INT_MAX, fresh4\<lparr>numOps := 1\<rparr>) \<and>
   put (fresh4\<lparr>numOps := 1\<rparr>) 1 11 True =
     Some (INT_MAX, fresh4\<lparr>table := [[], [\<lparr>key = 1, val = 11\<rparr>], [], []], numOps := 2,
                          size_c := 1, put_adds := 1\<rparr>) \<and>
   INT_MAX \<noteq> 10"
  by code_simp

text \<open>
  Claim C3 (delete). From a freshly created map and any sequence \<open>pre\<close> of operations:
  when a put has bound \<open>k\<close> to \<open>v\<close> (it was not aborted) and no put or delete on \<open>k\<close> is
  among the operations \<open>xs\<close> that follow, \<^verbatim>\<open>del(k)\<close> returns \<open>v\<close> and the \<^verbatim>\<open>get(k)\<close>
  after it returns \<^verbatim>\<open>INT_MAX\<close>, the value for "not found"; when no chain holds \<open>k\<close>,
  \<^verbatim>\<open>del(k)\<close> returns \<^verbatim>\<open>INT_MAX\<close> and \<^verbatim>\<open>size\<close> is unchanged.
\<close>

theorem delete_correct:
  assumes "initmap c (True, True, True) = (Some m0, live)" and "c \<noteq> 0"
    and "run m0 pre = Some m"
  shows "(\<not> aborts m (Put k v a) \<and> (\<forall>x\<in>set xs. \<not> mutates k x) \<longrightarrow>
            (\<exists>r m1 m2 m3 m4. put m k v a = Some (r, m1) \<and> run m1 xs = Some m2 \<and>
               del m2 k = Some (v, m3) \<and> get m3 k = Some (INT_MAX, m4))) \<and>
         (k \<notin> keys_of (concat (table m)) \<longrightarrow>
            (\<exists>m'. del m k = Some (INT_MAX, m') \<and> size_c m' = size_c m))"
proof (intro conjI impI)
  from reach_inv [OF assms(1-3)] have vm: "valid_map m" and ci: "chains_inv m" by simp_all
  {
    assume hyp: "\<not> aborts m (Put k v a) \<and> (\<forall>x\<in>set xs. \<not> mutates k x)"
    then have na: "\<not> aborts m (Put k v a)" and nm: "\<forall>x\<in>set xs. \<not> mutates k x"
      by simp_all
    from put_total [OF vm] obtain r m1
      where p: "put m k v a = Some (r, m1)" and vm1: "valid_map m1" by blast
    from put_chains [OF vm ci p] have ci1: "chains_inv m1" .
    from put_not_aborted [OF vm na] p have "put m k v True = Some (r, m1)" by simp
    from put_binding [OF vm this] have b1: "binding (bucket m1 k) k = Some v" .
    from run_valid [OF vm1, of xs] obtain m2
      where rn: "run m1 xs = Some m2" and vm2: "valid_map m2" by blast
    from run_chains [OF vm1 ci1 rn] have ci2: "chains_inv m2" .
    from run_frame [OF vm1 rn nm] b1 have b2: "binding (bucket m2 k) k = Some v" by simp
    from del_total [OF vm2, of k] b2 obtain m3
      where d: "del m2 k = Some (v, m3)" and vm3: "valid_map m3" by auto
    from del_chains [OF vm2 ci2 d] have "binding (bucket m3 k) k = None" by simp
    with get_total [OF vm3, of k] obtain m4 where "get m3 k = Some (INT_MAX, m4)" by auto
    with p rn d
    show "\<exists>r m1 m2 m3 m4. put m k v a = Some (r, m1) \<and> run m1 xs = Some m2 \<and>
               del m2 k = Some (v, m3) \<and> get m3 k = Some (INT_MAX, m4)"
      by blast
  }
  {
    assume ab: "k \<notin> keys_of (concat (table m))"
    from absent_bucket [OF vm ab] have b: "binding (bucket m k) k = None" .
    with del_total [OF vm, of k] obtain m' where d: "del m k = Some (INT_MAX, m')" by auto
    from b have "\<not> deletes m (Del k)" by (simp add: del_loop_None binding_None)
    with del_entries [OF vm d] have "size_c m' = size_c m" by simp
    with d show "\<exists>m'. del m k = Some (INT_MAX, m') \<and> size_c m' = size_c m" by blast
  }
qed

text \<open>
  Both halves at the map holding keys 1 and 5: key 5 is bound to 21, deleted (21 comes back)
  and then not found; key 9 is absent and its delete leaves \<^verbatim>\<open>size\<close> as it is.
\<close>

theorem delete_correct_witness:
  "initmap 4 (True, True, True) = (Some fresh4, [LocksBlock, TableBlock, MapBlock]) \<and>
   run fresh4 [Put 1 10 True, Put 5 20 True] = Some two_keys \<and>
   (\<exists>r m1 m2 m3 m4. put two_keys 5 21 True = Some (r, m1) \<and>
      run m1 [Get 5, Put 1 11 True, Del 9] = Some m2 \<and>
      del m2 5 = Some (21, m3) \<and> get m3 5 = Some (INT_MAX, m4)) \<and>
   9 \<notin> keys_of (concat (table two_keys)) \<and>
   (\<exists>m'. del two_keys 9 = Some (INT_MAX, m') \<and> size_c m' = size_c two_keys)"
proof -
  have h1: "initmap 4 (True, True, True) = (Some fresh4, [LocksBlock, TableBlock, MapBlock])"
    by code_simp
  have h2: "(4::cint) \<noteq> 0" by simp
  have h3: "run fresh4 [Put 1 10 True, Put 5 20 True] = Some two_keys" by code_simp
  have h4: "\<forall>x\<in>set [Get 5, Put 1 11 True, Del 9]. \<not> mutates 5 x" by simp
  have h5: "9 \<notin> keys_of (concat (table two_keys))" by code_simp
  have h6: "\<not> aborts two_keys (Put 5 21 True)" by code_simp
  from delete_correct [OF h1 h2 h3, of 5 21 True "[Get 5, Put 1 11 True, Del 9]"] h4 h6
  have a: "\<exists>r m1 m2 m3 m4. put two_keys 5 21 True = Some (r, m1) \<and>
      run m1 [Get 5, Put 1 11 True, Del 9] = Some m2 \<and>
      del m2 5 = Some (21, m3) \<and> get m3 5 = Some (INT_MAX, m4)"
    by blast
  from delete_correct [OF h1 h2 h3, of 9 0 True "[]"] h5
  have b: "\<exists>m'. del two_keys 9 = Some (INT_MAX, m') \<and> size_c m' = size_c two_keys"
    by blast
  from a b h1 h3 h5 show ?thesis by blast
qed

text \<open>
  Claim C4 (chain invariant). Every sequence of operations on a freshly created map of
  capacity \<open>c \<noteq> 0\<close> runs to its end, and in the state it reaches every bucket chain holds
  each key at most once, every entry of bucket \<open>i\<close> has
  \<^verbatim>\<open>(unsigned)key % (unsigned)capacity == i\<close>, and so no key occurs twice in the whole
  table. The capacity and the number of buckets never change.
\<close>

theorem chains_invariant:
  assumes "initmap c (True, True, True) = (Some m0, live)" and "c \<noteq> 0"
  shows "\<exists>m. run m0 xs = Some m \<and> capacity m = c \<and> length (table m) = unat c \<and>
           (\<forall>i<length (table m).
              distinct (map key (table m ! i)) \<and>
              (\<forall>e\<in>set (table m ! i). unat (key e) mod unat (capacity m) = i)) \<and>
           distinct (map key (concat (table m)))"
proof -
  from initmap_valid [OF assms] have v0: "valid_map m0" by simp
  from run_valid [OF v0, of xs] obtain m where r: "run m0 xs = Some m" by blast
  from reach_inv [OF assms r] have vm: "valid_map m" and ci: "chains_inv m"
    and cap: "capacity m = c" by simp_all
  from vm cap have len: "length (table m) = unat c" by (simp add: valid_map_def)
  from ci have each: "\<forall>i<length (table m).
              distinct (map key (table m ! i)) \<and>
              (\<forall>e\<in>set (table m ! i). unat (key e) mod unat (capacity m) = i)"
    by (simp add: chains_inv_nth chain_inv_def list_all_iff)
  from chains_inv_distinct [OF ci] r cap len each show ?thesis by blast
qed

text \<open>
  The statement after seven operations on the map of capacity 4, among them a replaced key,
  an aborted put, a delete and three keys of bucket 1.
\<close>

theorem chains_invariant_witness:
  "initmap 4 (True, True, True) = (Some fresh4, [LocksBlock, TableBlock, MapBlock]) \<and>
   (\<exists>m. run fresh4 [Put 1 10 True, Put 5 20 True, Put 1 11 True, Put 9 30 False, Del 5,
                      Put 13 40 True, Get 1] = Some m \<and>
      capacity m = 4 \<and> length (table m) = 4 \<and>
      distinct (map key (table m ! 1)) \<and>
      list_all (\<lambda>e. unat (key e) mod unat (capacity m) = 1) (table m ! 1) \<and>
      distinct (map key (concat (table m))))"
proof -
  let ?xs = "[Put 1 10 True, Put 5 20 True, Put 1 11 True, Put 9 30 False, Del 5,
              Put 13 40 True, Get 1]"
  have h1: "initmap 4 (True, True, True) = (Some fresh4, [LocksBlock, TableBlock, MapBlock])"
    by code_simp
  have h2: "(4::cint) \<noteq> 0" by simp
  from chains_invariant [OF h1 h2, of ?xs] obtain m where r: "run fresh4 ?xs = Some m"
    and c: "capacity m = 4" and l: "length (table m) = unat (4::cint)"
    and e: "\<forall>i<length (table m).
              distinct (map key (table m ! i)) \<and>
              (\<forall>e\<in>set (table m ! i). unat (key e) mod unat (capacity m) = i)"
    and d: "distinct (map key (concat (table m)))"
    by blast
  from l have l4: "length (table m) = 4" by simp
  with e have "distinct (map key (table m ! 1)) \<and>
      (\<forall>e\<in>set (table m ! 1). unat (key e) mod unat (capacity m) = 1)"
    by simp
  then have "distinct (map key (table m ! 1))"
    "list_all (\<lambda>e. unat (key e) mod unat (capacity m) = 1) (table m ! 1)"
    by (simp_all add: list_all_iff)
  with h1 r c l4 d show ?thesis by blast
qed

text \<open>
  Claim C5 (size). After every sequence of operations on a freshly created map,
  \<^verbatim>\<open>size\<close> is the number of puts that linked a new entry minus the number of deletes
  that unlinked one, and it is the sum of the chain lengths over all buckets. The first two
  equations are between 32-bit words, as the code computes them; the third is between the
  numbers themselves; and for fewer than \<open>2 ^ 31\<close> operations, where no counter can
  overflow, the signed reading of \<^verbatim>\<open>size\<close> is that number.
\<close>

theorem size_identity:
  assumes "initmap c (True, True, True) = (Some m0, live)" and "c \<noteq> 0"
  shows "\<exists>m. run m0 xs = Some m \<and>
           size_c m = of_nat (tally inserts m0 xs) - of_nat (tally deletes m0 xs) \<and>
           size_c m = of_nat (entries m) \<and>
           entries m + tally deletes m0 xs = tally inserts m0 xs \<and>
           (length xs < 2 ^ 31 \<longrightarrow>
              sint (size_c m) = int (tally inserts m0 xs) - int (tally deletes m0 xs) \<and>
              sint (size_c m) = int (entries m))"
proof -
  from initmap_valid [OF assms] have v0: "valid_map m0" by simp
  from assms(1) have z: "size_c m0 = 0" "entries m0 = 0"
    by (auto simp: initmap_def calloc_returns_def Let_def entries_def split: if_splits)
  from run_valid [OF v0, of xs] obtain m where r: "run m0 xs = Some m" by blast
  from run_entries [OF v0 r] z
  have e: "entries m + tally deletes m0 xs = tally inserts m0 xs"
    and s: "size_c m + of_nat (tally deletes m0 xs) = of_nat (tally inserts m0 xs)"
    by simp_all
  from s have s1: "size_c m = of_nat (tally inserts m0 xs) - of_nat (tally deletes m0 xs)"
    by (simp add: eq_diff_eq)
  from e have "(of_nat (tally inserts m0 xs) :: cint) =
      of_nat (entries m) + of_nat (tally deletes m0 xs)"
    by (metis of_nat_add)
  with s1 have s2: "size_c m = of_nat (entries m)" by simp
  have s3: "length xs < 2 ^ 31 \<longrightarrow>
              sint (size_c m) = int (tally inserts m0 xs) - int (tally deletes m0 xs) \<and>
              sint (size_c m) = int (entries m)"
  proof
    assume b: "length xs < 2 ^ 31"
    from e have "entries m \<le> tally inserts m0 xs" by simp
    also have "\<dots> \<le> length xs" by (rule tally_le)
    finally have "entries m < 2 ^ 31" using b by simp
    with s2 have i: "sint (size_c m) = int (entries m)" by (simp add: sint_of_nat_small)
    from e have "int (entries m) = int (tally inserts m0 xs) - int (tally deletes m0 xs)"
      by linarith
    with i show "sint (size_c m) = int (tally inserts m0 xs) - int (tally deletes m0 xs) \<and>
              sint (size_c m) = int (entries m)"
      by simp
  qed
  from r s1 s2 e s3 show ?thesis by blast
qed

text \<open>
  Seven operations on the map of capacity 4: two inserts (one put replaces, one is aborted),
  one successful delete and one that misses; \<^verbatim>\<open>size\<close> is 1 and one entry is left.
\<close>

theorem size_identity_witness:
  "initmap 4 (True, True, True) = (Some fresh4, [LocksBlock, TableBlock, MapBlock]) \<and>
   tally inserts fresh4 [Put 1 10 True, Put 5 20 True, Put 1 11 True, Put 9 30 False,
                          Del 5, Del 7, Get 1] = 2 \<and>
   tally deletes fresh4 [Put 1 10 True, Put 5 20 True, Put 1 11 True, Put 9 30 False,
                          Del 5, Del 7, Get 1] = 1 \<and>
   (\<exists>m. run fresh4 [Put 1 10 True, Put 5 20 True, Put 1 11 True, Put 9 30 False,
                      Del 5, Del 7, Get 1] = Some m \<and>
      sint (size_c m) = 1 \<and> entries m = 1)"
proof -
  let ?xs = "[Put 1 10 True, Put 5 20 True, Put 1 11 True, Put 9 30 False,
              Del 5, Del 7, Get 1]"
  have h1: "initmap 4 (True, True, True) = (Some fresh4, [LocksBlock, TableBlock, MapBlock])"
    by code_simp
  have h2: "(4::cint) \<noteq> 0" by simp
  have t1: "tally inserts fresh4 ?xs = 2" by code_simp
  have t2: "tally deletes fresh4 ?xs = 1" by code_simp
  have l: "length ?xs < 2 ^ 31" by simp
  from size_identity [OF h1 h2, of ?xs] l obtain m where r: "run fresh4 ?xs = Some m"
    and s: "sint (size_c m) = int (tally inserts fresh4 ?xs) - int (tally deletes fresh4 ?xs)"
    and e: "sint (size_c m) = int (entries m)"
    by blast
  from s t1 t2 have "sint (size_c m) = 1" by simp
  moreover from this e have "entries m = 1" by simp
  ultimately show ?thesis using h1 t1 t2 r by blast
qed

text \<open>
  Claim C6 (counters). After every sequence of operations on a freshly created map,
  \<^verbatim>\<open>numOps\<close> is the sum of the five outcome counters plus the number of puts that an
  allocation failure aborted: such a put increments \<^verbatim>\<open>numOps\<close> and no outcome counter.
  So the identity of the claim holds for every sequence in which no put is aborted. The
  words are equal as the code computes them, and for fewer than \<open>2 ^ 31\<close> operations so
  are the signed readings.
\<close>

theorem counter_identity:
  assumes "initmap c (True, True, True) = (Some m0, live)" and "c \<noteq> 0"
  shows "\<exists>m. run m0 xs = Some m \<and>
           numOps m = gets m + put_adds m + put_reps m + del_succ m + del_fail m +
                        of_nat (tally aborts m0 xs) \<and>
           (tally aborts m0 xs = 0 \<longrightarrow>
              numOps m = gets m + put_adds m + put_reps m + del_succ m + del_fail m) \<and>
           (length xs < 2 ^ 31 \<longrightarrow>
              sint (numOps m) = int (length xs) \<and>
              sint (numOps m) =
                sint (gets m) + sint (put_adds m) + sint (put_reps m) + sint (del_succ m) +
                sint (del_fail m) + int (tally aborts m0 xs))"
proof -
  from initmap_valid [OF assms] have v0: "valid_map m0" by simp
  from assms(1) have z: "numOps m0 = 0" "gets m0 = 0" "put_adds m0 = 0" "put_reps m0 = 0"
    "del_succ m0 = 0" "del_fail m0 = 0"
    by (auto simp: initmap_def calloc_returns_def Let_def split: if_splits)
  then have z': "outcomes m0 = 0" by (simp add: outcomes_def)
  from run_valid [OF v0, of xs] obtain m where r: "run m0 xs = Some m" by blast
  note rc = run_counters [OF v0 r]
  from rc have n0: "numOps m = numOps m0 + of_nat (length xs)" by blast
  from rc have s0: "gets m + put_adds m + put_reps m + del_succ m + del_fail m +
       of_nat (tally aborts m0 xs) =
     gets m0 + put_adds m0 + put_reps m0 + del_succ m0 + del_fail m0 + of_nat (length xs)"
    by blast
  from n0 z have n: "numOps m = of_nat (length xs)" by simp
  from s0 z have s: "gets m + put_adds m + put_reps m + del_succ m + del_fail m +
              of_nat (tally aborts m0 xs) = of_nat (length xs)"
    by simp
  from n s have one: "numOps m = gets m + put_adds m + put_reps m + del_succ m + del_fail m +
                        of_nat (tally aborts m0 xs)"
    by simp
  then have two: "tally aborts m0 xs = 0 \<longrightarrow>
              numOps m = gets m + put_adds m + put_reps m + del_succ m + del_fail m"
    by simp
  have three: "length xs < 2 ^ 31 \<longrightarrow>
              sint (numOps m) = int (length xs) \<and>
              sint (numOps m) =
                sint (gets m) + sint (put_adds m) + sint (put_reps m) + sint (del_succ m) +
                sint (del_fail m) + int (tally aborts m0 xs)"
  proof
    assume b: "length xs < 2 ^ 31"
    with n have sn: "sint (numOps m) = int (length xs)" by (simp add: sint_of_nat_small)
    from b have "outcomes m0 + length xs < 2 ^ 32" using z' by simp
    from run_outcomes [OF v0 r this] z'
    have o: "outcomes m + tally aborts m0 xs = length xs" by simp
    with b have ob: "outcomes m < 2 ^ 31" by simp
    then have "unat (gets m) < 2 ^ 31" "unat (put_adds m) < 2 ^ 31"
      "unat (put_reps m) < 2 ^ 31" "unat (del_succ m) < 2 ^ 31" "unat (del_fail m) < 2 ^ 31"
      by (simp_all add: outcomes_def)
    then have "sint (gets m) + sint (put_adds m) + sint (put_reps m) + sint (del_succ m) +
        sint (del_fail m) = int (outcomes m)"
      by (simp add: sint_small outcomes_def)
    with o sn show "sint (numOps m) = int (length xs) \<and>
              sint (numOps m) =
                sint (gets m) + sint (put_adds m) + sint (put_reps m) + sint (del_succ m) +
                sint (del_fail m) + int (tally aborts m0 xs)"
      by simp
  qed
  show ?thesis
  proof (rule exI [of _ m], intro conjI)
    show "run m0 xs = Some m" by (rule r)
    show "numOps m = gets m + put_adds m + put_reps m + del_succ m + del_fail m +
                        of_nat (tally aborts m0 xs)"
      by (rule one)
    show "tally aborts m0 xs = 0 \<longrightarrow>
              numOps m = gets m + put_adds m + put_reps m + del_succ m + del_fail m"
      by (rule two)
    show "length xs < 2 ^ 31 \<longrightarrow>
              sint (numOps m) = int (length xs) \<and>
              sint (numOps m) =
                sint (gets m) + sint (put_adds m) + sint (put_reps m) + sint (del_succ m) +
                sint (del_fail m) + int (tally aborts m0 xs)"
      by (rule three)
  qed
qed

text \<open>
  The scenario of the specification on the map of capacity 4: six operations, none aborted,
  and \<^verbatim>\<open>numOps\<close> is the sum of the outcome counters, 6.
\<close>

theorem counter_identity_witness:
  "initmap 4 (True, True, True) = (Some fresh4, [LocksBlock, TableBlock, MapBlock]) \<and>
   tally aborts fresh4 [Put 1 10 True, Put 5 20 True, Get 1, Put 1 11 True, Del 5, Get 5] = 0 \<and>
   (\<exists>m. run fresh4 [Put 1 10 True, Put 5 20 True, Get 1, Put 1 11 True, Del 5, Get 5] = Some m \<and>
      numOps m = gets m + put_adds m + put_reps m + del_succ m + del_fail m \<and>
      sint (numOps m) = 6)"
proof -
  let ?xs = "[Put 1 10 True, Put 5 20 True, Get 1, Put 1 11 True, Del 5, Get 5]"
  have h1: "initmap 4 (True, True, True) = (Some fresh4, [LocksBlock, TableBlock, MapBlock])"
    by code_simp
  have h2: "(4::cint) \<noteq> 0" by simp
  have t: "tally aborts fresh4 ?xs = 0" by code_simp
  have l: "length ?xs < 2 ^ 31" by simp
  from counter_identity [OF h1 h2, of ?xs] t l obtain m where r: "run fresh4 ?xs = Some m"
    and s: "numOps m = gets m + put_adds m + put_reps m + del_succ m + del_fail m"
    and n: "sint (numOps m) = int (length ?xs)"
    by blast
  from n have "sint (numOps m) = 6" by simp
  with h1 t r s show ?thesis by blast
qed

text \<open>
  Claim C6 as stated covers every sequence. After the single \<^verbatim>\<open>put(1, 10)\<close> whose
  allocation fails, \<^verbatim>\<open>numOps\<close> is 1 and the outcome counters sum to 0.
\<close>

theorem counter_identity_counterexample:
  "initmap 4 (True, True, True) = (Some fresh4, [LocksBlock, TableBlock, MapBlock]) \<and>
   run fresh4 [Put 1 10 False] = Some (fresh4\<lparr>numOps := 1\<rparr>) \<and>
   numOps (fresh4\<lparr>numOps := 1\<rparr>) = 1 \<and>
   gets (fresh4\<lparr>numOps := 1\<rparr>) + put_adds (fresh4\<lparr>numOps := 1\<rparr>) +
     put_reps (fresh4\<lparr>numOps := 1\<rparr>) + del_succ (fresh4\<lparr>numOps := 1\<rparr>) +
     del_fail (fresh4\<lparr>numOps := 1\<rparr>) = 0"
  by code_simp

text \<open>
  Claim C7 (allocation failure in put). When the key is not in its bucket and the allocation
  of the new entry fails, \<^verbatim>\<open>put\<close> returns with the map unchanged but for \<^verbatim>\<open>numOps\<close>,
  which is one more: the table, and with it the chain, and \<^verbatim>\<open>size\<close> are as before. What
  it returns is \<^verbatim>\<open>INT_MAX\<close>, and that is also what the same put returns when the
  allocation succeeds and the key is inserted.
\<close>

theorem put_alloc_failure:
  assumes "valid_map m" and "k \<notin> keys_of (bucket m k)"
  shows "put m k v False = Some (INT_MAX, m\<lparr>numOps := numOps m + 1\<rparr>) \<and>
         (\<exists>m'. put m k v True = Some (INT_MAX, m'))"
proof -
  from assms(2) have n: "put_loop (bucket m k) k v = None" by (simp add: put_loop_None)
  with assms(1) show ?thesis by (simp add: put_valid)
qed

text \<open>
  The statement for the absent key 9 on the map holding keys 1 and 5.
\<close>

theorem put_alloc_failure_witness:
  "valid_map two_keys \<and> 9 \<notin> keys_of (bucket two_keys 9) \<and>
   put two_keys 9 30 False = Some (INT_MAX, two_keys\<lparr>numOps := numOps two_keys + 1\<rparr>) \<and>
   table (two_keys\<lparr>numOps := numOps two_keys + 1\<rparr>) = table two_keys \<and>
   size_c (two_keys\<lparr>numOps := numOps two_keys + 1\<rparr>) = size_c two_keys \<and>
   (\<exists>m'. put two_keys 9 30 True = Some (INT_MAX, m'))"
proof -
  have h1: "valid_map two_keys" by code_simp
  have h2: "9 \<notin> keys_of (bucket two_keys 9)" by code_simp
  from put_alloc_failure [OF h1 h2, of 30] h1 h2 show ?thesis by simp
qed

text \<open>
  Claim C7 asks for a failure signal distinct from "was new". On the fresh map of capacity 4,
  \<^verbatim>\<open>put(1, 10)\<close> returns \<^verbatim>\<open>INT_MAX\<close> when the allocation fails and \<^verbatim>\<open>INT_MAX\<close>
  when it succeeds: the caller sees the same result.
\<close>

theorem put_alloc_failure_counterexample:
  "initmap 4 (True, True, True) = (Some fresh4, [LocksBlock, TableBlock, MapBlock]) \<and>
   put fresh4 1 10 False = Some (INT_MAX, fresh4\<lparr>numOps := 1\<rparr>) \<and>
   put fresh4 1 10 True =
     Some (INT_MAX, fresh4\<lparr>table := [[], [\<lparr>key = 1, val = 10\<rparr>], [], []], numOps := 1,
                          size_c := 1, put_adds := 1\<rparr>)"
  by code_simp

text \<open>
  Claim C8 (construction failure). \<^verbatim>\<open>initmap\<close> returns \<^verbatim>\<open>NULL\<close> for every negative
  capacity, because the table it asks \<^verbatim>\<open>calloc\<close> for cannot be allocated, and for every
  capacity when one of its allocations fails; these are its only failures. On every failure
  no block it allocated is left allocated. It has no test of the capacity itself: for a
  capacity that is not negative, 0 included, it returns a map of that capacity, with that
  many empty buckets, when the allocations succeed.
\<close>

theorem initmap_failure:
  "(fst (initmap c (map_ok, table_ok, locks_ok)) = None) =
     (sint c < 0 \<or> \<not> map_ok \<or> \<not> table_ok \<or> \<not> locks_ok) \<and>
   (sint c < 0 \<longrightarrow> initmap c (map_ok, table_ok, locks_ok) = (None, [])) \<and>
   (fst (initmap c (map_ok, table_ok, locks_ok)) = None \<longrightarrow>
      snd (initmap c (map_ok, table_ok, locks_ok)) = []) \<and>
   (0 \<le> sint c \<and> map_ok \<and> table_ok \<and> locks_ok \<longrightarrow>
      (\<exists>m. initmap c (map_ok, table_ok, locks_ok) = (Some m, [LocksBlock, TableBlock, MapBlock])
         \<and> capacity m = c \<and> table m = replicate (unat c) []))"
proof (intro conjI impI)
  show "(fst (initmap c (map_ok, table_ok, locks_ok)) = None) =
     (sint c < 0 \<or> \<not> map_ok \<or> \<not> table_ok \<or> \<not> locks_ok)"
    by (auto simp: initmap_def calloc_returns_def Let_def)
  show "initmap c (map_ok, table_ok, locks_ok) = (None, [])" if "sint c < 0"
    using that by (simp add: initmap_def calloc_returns_def Let_def)
  show "snd (initmap c (map_ok, table_ok, locks_ok)) = []"
    if "fst (initmap c (map_ok, table_ok, locks_ok)) = None"
    using that by (auto simp: initmap_def calloc_returns_def Let_def split: if_splits)
  show "\<exists>m. initmap c (map_ok, table_ok, locks_ok) = (Some m, [LocksBlock, TableBlock, MapBlock])
         \<and> capacity m = c \<and> table m = replicate (unat c) []"
    if "0 \<le> sint c \<and> map_ok \<and> table_ok \<and> locks_ok"
    using that by (simp add: initmap_def calloc_returns_def Let_def)
qed

text \<open>
  A negative capacity with every allocation willing, each of the three allocations failing
  in turn for capacity 4, and capacity 4 with all three succeeding.
\<close>

theorem initmap_failure_witness:
  "sint (- 3 :: cint) < 0 \<and>
   initmap (- 3) (True, True, True) = (None, []) \<and>
   initmap 4 (False, True, True) = (None, []) \<and>
   initmap 4 (True, False, True) = (None, []) \<and>
   initmap 4 (True, True, False) = (None, []) \<and>
   (\<exists>m. initmap 4 (True, True, True) = (Some m, [LocksBlock, TableBlock, MapBlock]) \<and>
      capacity m = 4 \<and> table m = replicate (unat (4::cint)) [])"
proof -
  have n: "sint (- 3 :: cint) < 0" by simp
  from initmap_failure [of "- 3" True True True] n
  have a: "initmap (- 3) (True, True, True) = (None, [])"
    by blast
  from initmap_failure [of 4 False True True] have b: "initmap 4 (False, True, True) = (None, [])"
    by (simp add: prod_eq_iff)
  from initmap_failure [of 4 True False True] have c: "initmap 4 (True, False, True) = (None, [])"
    by (simp add: prod_eq_iff)
  from initmap_failure [of 4 True True False] have d: "initmap 4 (True, True, False) = (None, [])"
    by (simp add: prod_eq_iff)
  have p: "0 \<le> sint (4 :: cint)" by simp
  from initmap_failure [of 4 True True True] p
  have e: "\<exists>m. initmap 4 (True, True, True) = (Some m, [LocksBlock, TableBlock, MapBlock]) \<and>
      capacity m = 4 \<and> table m = replicate (unat (4::cint)) []"
    by blast
  from n a b c d e show ?thesis by blast
qed

text \<open>
  Claim C8 asks for a failure for every capacity \<open>c \<le> 0\<close>. For \<open>c = 0\<close> and allocations
  that succeed (a \<^verbatim>\<open>calloc\<close> of zero elements may return a block), \<^verbatim>\<open>initmap\<close> returns a
  map with capacity 0 and no bucket.
\<close>

theorem initmap_failure_counterexample:
  "sint (0::cint) \<le> 0 \<and>
   initmap 0 (True, True, True) =
     (Some \<lparr>table = [], numOps = 0, capacity = 0, size_c = 0, gets = 0, put_adds = 0,
            put_reps = 0, del_succ = 0, del_fail = 0\<rparr>,
      [LocksBlock, TableBlock, MapBlock])"
  by code_simp

text \<open>
  Claim C9 (percentages of the report). \<^verbatim>\<open>freeMap\<close> divides by \<^verbatim>\<open>numOps\<close> without
  testing it. A map reached by fewer than \<open>2 ^ 32\<close> operations has \<^verbatim>\<open>numOps == 0\<close> only
  when no operation has run; its counters are all zero and every percentage of the report is
  \<^verbatim>\<open>0.0 / 0\<close>, which is not a number.
\<close>

theorem report_zero_ops:
  assumes "initmap c (True, True, True) = (Some m0, live)"
    and "run m0 xs = Some m" and "numOps m = 0" and "length xs < 2 ^ 32"
  shows "xs = [] \<and>
         freeMap_report m =
           [(''gets'', 0, NaN), (''put adds'', 0, NaN), (''put reps'', 0, NaN),
            (''del succ'', 0, NaN), (''del fail'', 0, NaN)]"
proof -
  have e: "xs = []"
  proof (cases "c = 0")
    case True
    with assms(1) have "capacity m0 = 0" by (auto simp: initmap_def calloc_returns_def Let_def split: if_splits)
    then have "step m0 x = None" for x
      by (cases x) (simp_all add: get_def put_def del_def index_of_def)
    with assms(2) show ?thesis by (cases xs) simp_all
  next
    case False
    from initmap_valid [OF assms(1) False] have v0: "valid_map m0" by simp
    from assms(1) have z: "numOps m0 = 0" by (auto simp: initmap_def calloc_returns_def Let_def split: if_splits)
    from run_counters [OF v0 assms(2)] have "numOps m = numOps m0 + of_nat (length xs)"
      by blast
    with z assms(3) have "(of_nat (length xs) :: cint) = 0" by simp
    then have "unat (of_nat (length xs) :: cint) = 0" by simp
    with assms(4) have "length xs = 0" by (simp add: unat_of_nat)
    then show ?thesis by simp
  qed
  with assms(2) have "m = m0" by simp
  with assms(1) have "freeMap_report m =
           [(''gets'', 0, NaN), (''put adds'', 0, NaN), (''put reps'', 0, NaN),
            (''del succ'', 0, NaN), (''del fail'', 0, NaN)]"
    by (auto simp: initmap_def calloc_returns_def Let_def freeMap_report_def percent_def
          split: if_splits)
  with e show ?thesis by simp
qed

text \<open>
  The report of the fresh map of capacity 4.
\<close>

theorem report_zero_ops_witness:
  "initmap 4 (True, True, True) = (Some fresh4, [LocksBlock, TableBlock, MapBlock]) \<and>
   run fresh4 [] = Some fresh4 \<and> numOps fresh4 = 0 \<and>
   freeMap_report fresh4 =
     [(''gets'', 0, NaN), (''put adds'', 0, NaN), (''put reps'', 0, NaN),
      (''del succ'', 0, NaN), (''del fail'', 0, NaN)]"
proof -
  have h1: "initmap 4 (True, True, True) = (Some fresh4, [LocksBlock, TableBlock, MapBlock])"
    by code_simp
  have h2: "run fresh4 [] = Some fresh4" by simp
  have h3: "numOps fresh4 = 0" by (simp add: fresh4_def)
  have h4: "length ([]::op list) < 2 ^ 32" by simp
  from report_zero_ops [OF h1 h2 h3 h4] h1 h2 h3 show ?thesis by simp
qed

text \<open>
  Claim C9 asks for 0 percent when \<^verbatim>\<open>numOps\<close> is zero. The percentages in the report of
  the fresh map of capacity 4 are the results of the division by zero, none of them 0.
\<close>

theorem report_zero_ops_counterexample:
  "initmap 4 (True, True, True) = (Some fresh4, [LocksBlock, TableBlock, MapBlock]) \<and>
   numOps fresh4 = 0 \<and>
   map (\<lambda>(label, count, p). p) (freeMap_report fresh4) = [NaN, NaN, NaN, NaN, NaN] \<and>
   NaN \<noteq> Pct 0"
proof -
  have h1: "initmap 4 (True, True, True) = (Some fresh4, [LocksBlock, TableBlock, MapBlock])"
    by code_simp
  have h2: "numOps fresh4 = 0" by (simp add: fresh4_def)
  have h3: "map (\<lambda>(label, count, p). p) (freeMap_report fresh4) = [NaN, NaN, NaN, NaN, NaN]"
    by (simp add: fresh4_def freeMap_report_def percent_def)
  from h1 h2 h3 show ?thesis by simp
qed

text \<open>
  Claim C10 (the sentinel is a legal value). \<^verbatim>\<open>INT_MAX\<close> is what \<^verbatim>\<open>get\<close> and
  \<^verbatim>\<open>del\<close> return for a key that no chain holds and what \<^verbatim>\<open>put\<close> returns for such a
  key. It can also be stored: after \<^verbatim>\<open>put(k, INT_MAX)\<close>, whose allocation may succeed or
  fail, \<^verbatim>\<open>get(k)\<close> and \<^verbatim>\<open>del(k)\<close> return \<^verbatim>\<open>INT_MAX\<close>, and when the allocation
  succeeds the chain does bind \<open>k\<close> to \<^verbatim>\<open>INT_MAX\<close>. The caller cannot tell the two
  cases apart.
\<close>

theorem sentinel_in_band:
  assumes "initmap c (True, True, True) = (Some m0, live)" and "c \<noteq> 0"
    and "run m0 pre = Some m"
  shows "(\<exists>r m1 m2 m3. put m k INT_MAX a = Some (r, m1) \<and>
            get m1 k = Some (INT_MAX, m2) \<and> del m1 k = Some (INT_MAX, m3)) \<and>
         (\<exists>r m1. put m k INT_MAX True = Some (r, m1) \<and>
            binding (bucket m1 k) k = Some INT_MAX) \<and>
         (k \<notin> keys_of (concat (table m)) \<longrightarrow>
            (\<exists>m1 m2 m3. put m k v a = Some (INT_MAX, m1) \<and>
               get m k = Some (INT_MAX, m2) \<and> del m k = Some (INT_MAX, m3)))"
proof (intro conjI impI)
  from reach_inv [OF assms(1-3)] have vm: "valid_map m" by simp
  from put_total [OF vm] obtain r m1
    where p: "put m k INT_MAX a = Some (r, m1)" and vm1: "valid_map m1" by blast
  have "binding (bucket m1 k) k = Some INT_MAX \<or> binding (bucket m1 k) k = None"
  proof (cases "aborts m (Put k INT_MAX a)")
    case False
    from put_not_aborted [OF vm False] p have "put m k INT_MAX True = Some (r, m1)" by simp
    from put_binding [OF vm this] show ?thesis by simp
  next
    case True
    then have n: "put_loop (bucket m k) k INT_MAX = None" and "\<not> a" by simp_all
    with vm p have "bucket m1 k = bucket m k" by (auto simp: put_valid bucket_def)
    with n show ?thesis by (simp add: put_loop_None binding_None)
  qed
  then have "(case binding (bucket m1 k) k of None \<Rightarrow> INT_MAX | Some w \<Rightarrow> w) = INT_MAX"
    by auto
  with get_total [OF vm1, of k] del_total [OF vm1, of k] obtain m2 m3
    where "get m1 k = Some (INT_MAX, m2)" "del m1 k = Some (INT_MAX, m3)" by auto
  with p show "\<exists>r m1 m2 m3. put m k INT_MAX a = Some (r, m1) \<and>
            get m1 k = Some (INT_MAX, m2) \<and> del m1 k = Some (INT_MAX, m3)"
    by blast
  from put_total [OF vm] obtain r' n1
    where p': "put m k INT_MAX True = Some (r', n1)" by blast
  from put_binding [OF vm p'] p'
  show "\<exists>r m1. put m k INT_MAX True = Some (r, m1) \<and> binding (bucket m1 k) k = Some INT_MAX"
    by blast
  {
    assume ab: "k \<notin> keys_of (concat (table m))"
    from absent_bucket [OF vm ab] have b: "binding (bucket m k) k = None" .
    from put_total [OF vm] obtain r0 n0 where p0: "put m k v a = Some (r0, n0)" by blast
    from put_result [OF vm p0] b have "r0 = INT_MAX" by simp
    moreover from get_total [OF vm, of k] b obtain m2 where "get m k = Some (INT_MAX, m2)"
      by auto
    moreover from del_total [OF vm, of k] b obtain m3 where "del m k = Some (INT_MAX, m3)"
      by auto
    ultimately show "\<exists>m1 m2 m3. put m k v a = Some (INT_MAX, m1) \<and>
               get m k = Some (INT_MAX, m2) \<and> del m k = Some (INT_MAX, m3)"
      using p0 by blast
  }
qed

text \<open>
  On the map holding keys 1 and 5: key 5 is bound to \<^verbatim>\<open>INT_MAX\<close> and reads and deletes as
  \<^verbatim>\<open>INT_MAX\<close>; key 9 is absent and reads and deletes as \<^verbatim>\<open>INT_MAX\<close> too.
\<close>

theorem sentinel_in_band_witness:
  "initmap 4 (True, True, True) = (Some fresh4, [LocksBlock, TableBlock, MapBlock]) \<and>
   run fresh4 [Put 1 10 True, Put 5 20 True] = Some two_keys \<and>
   INT_MAX = 2147483647 \<and>
   (\<exists>r m1 m2 m3. put two_keys 5 INT_MAX True = Some (r, m1) \<and>
      get m1 5 = Some (INT_MAX, m2) \<and> del m1 5 = Some (INT_MAX, m3)) \<and>
   9 \<notin> keys_of (concat (table two_keys)) \<and>
   (\<exists>m1 m2 m3. put two_keys 9 30 True = Some (INT_MAX, m1) \<and>
      get two_keys 9 = Some (INT_MAX, m2) \<and> del two_keys 9 = Some (INT_MAX, m3))"
proof -
  have h1: "initmap 4 (True, True, True) = (Some fresh4, [LocksBlock, TableBlock, MapBlock])"
    by code_simp
  have h2: "(4::cint) \<noteq> 0" by simp
  have h3: "run fresh4 [Put 1 10 True, Put 5 20 True] = Some two_keys" by code_simp
  have h4: "9 \<notin> keys_of (concat (table two_keys))" by code_simp
  have h5: "INT_MAX = 2147483647" by (simp add: INT_MAX_def)
  from sentinel_in_band [OF h1 h2 h3, of 5 True]
  have a: "\<exists>r m1 m2 m3. put two_keys 5 INT_MAX True = Some (r, m1) \<and>
      get m1 5 = Some (INT_MAX, m2) \<and> del m1 5 = Some (INT_MAX, m3)"
    by blast
  from sentinel_in_band [OF h1 h2 h3, of 9 True 30] h4
  have b: "\<exists>m1 m2 m3. put two_keys 9 30 True = Some (INT_MAX, m1) \<and>
      get two_keys 9 = Some (INT_MAX, m2) \<and> del two_keys 9 = Some (INT_MAX, m3)"
    by blast
  from h1 h3 h5 a h4 b show ?thesis by blast
qed

end
